theory Spec2Isabelle
  imports Complex_Main "HOL-Library.Word" "HOL-Library.Multiset"
begin

section \<open>Results and sequencing\<close>

text \<open>
  Every access that C leaves undefined (an index outside its array, a read of a slot
  that was never written) is a branch of the model that returns \<open>Inl\<close> of an error.
  \<open>bnd\<close> sequences two steps and stops at the first error.
\<close>

definition bnd :: "'e + 'a \<Rightarrow> ('a \<Rightarrow> 'e + 'b) \<Rightarrow> 'e + 'b" where
  "bnd m f = (case m of Inl e \<Rightarrow> Inl e | Inr x \<Rightarrow> f x)"

lemma bnd_cong [fundef_cong]:
  "m = m' \<Longrightarrow> (\<And>x. m' = Inr x \<Longrightarrow> f x = f' x) \<Longrightarrow> bnd m f = bnd m' f'"
  by (cases m') (simp_all add: bnd_def)

lemma bnd_Inl [simp]: "bnd (Inl e) f = Inl e"
  by (simp add: bnd_def)

lemma bnd_Inr [simp]: "bnd (Inr x) f = f x"
  by (simp add: bnd_def)

section \<open>The program \<open>rain_probability.c\<close>\<close>

text \<open>
  The C \<open>float\<close> is modelled by \<open>real\<close>: the arithmetic of the model is exact. The
  arrays \<open>p\<close> and \<open>pmf\<close> are lists, indexed by C \<open>int\<close>s; an index outside the list is
  the error \<open>P_index i\<close> or \<open>Pmf_index i\<close>.
\<close>

datatype rain_error = P_index int | Pmf_index int

definition DAYSPERYEAR :: int where
  "DAYSPERYEAR = 365"

definition rd_p :: "real list \<Rightarrow> int \<Rightarrow> rain_error + real" where
  "rd_p p i = (if 0 \<le> i \<and> i < int (length p) then Inr (p ! nat i) else Inl (P_index i))"

definition rd_pmf :: "real list \<Rightarrow> int \<Rightarrow> rain_error + real" where
  "rd_pmf pmf i =
     (if 0 \<le> i \<and> i < int (length pmf) then Inr (pmf ! nat i) else Inl (Pmf_index i))"

definition wr_pmf :: "real list \<Rightarrow> int \<Rightarrow> real \<Rightarrow> rain_error + real list" where
  "wr_pmf pmf i v =
     (if 0 \<le> i \<and> i < int (length pmf) then Inr (pmf[nat i := v]) else Inl (Pmf_index i))"

text \<open>
  The inner loop of \<open>prob_mass_func\<close>:
  \<^verbatim>\<open>for (int j = i - 1; j > 0; j--) pmf[j] = p[i] * pmf[j-1] + (1 - p[i]) * pmf[j];\<close>
\<close>

function inner_loop :: "real list \<Rightarrow> int \<Rightarrow> real list \<Rightarrow> int \<Rightarrow> rain_error + real list" where
  "inner_loop p i pmf j =
     (if j > 0 then
        bnd (rd_p p i) (\<lambda>pi.
        bnd (rd_pmf pmf (j - 1)) (\<lambda>a.
        bnd (rd_p p i) (\<lambda>pi'.
        bnd (rd_pmf pmf j) (\<lambda>b.
        bnd (wr_pmf pmf j (pi * a + (1 - pi') * b)) (\<lambda>pmf'.
        inner_loop p i pmf' (j - 1))))))
      else Inr pmf)"
  by pat_completeness auto
termination
  by (relation "measure (\<lambda>(p, i, pmf, j). nat j)") auto

text \<open>
  The outer loop, \<open>for (int i = 1; i <= DAYSPERYEAR; i++)\<close>, with the bound as the
  parameter \<open>d\<close>; \<open>prob_mass_func\<close> runs it with \<open>d = DAYSPERYEAR\<close>.
\<close>

function pmf_loop :: "int \<Rightarrow> real list \<Rightarrow> real list \<Rightarrow> int \<Rightarrow> rain_error + real list" where
  "pmf_loop d p pmf i =
     (if i \<le> d then
        bnd (rd_p p i) (\<lambda>pi.
        bnd (rd_pmf pmf (i - 1)) (\<lambda>a.
        bnd (wr_pmf pmf i (pi * a)) (\<lambda>pmf1.
        bnd (inner_loop p i pmf1 (i - 1)) (\<lambda>pmf2.
        bnd (rd_p p i) (\<lambda>pi'.
        bnd (rd_pmf pmf2 0) (\<lambda>z.
        bnd (wr_pmf pmf2 0 ((1 - pi') * z)) (\<lambda>pmf3.
        pmf_loop d p pmf3 (i + 1))))))))
      else Inr pmf)"
  by pat_completeness auto
termination
  by (relation "measure (\<lambda>(d, p, pmf, i). nat (d + 1 - i))") auto

definition prob_mass_func :: "real list \<Rightarrow> real list \<Rightarrow> rain_error + real list" where
  "prob_mass_func p pmf = bnd (wr_pmf pmf 0 1) (\<lambda>pmf0. pmf_loop DAYSPERYEAR p pmf0 1)"

text \<open>
  \<open>prob_rain_more_than_n\<close>: the guard on \<open>n\<close>, the loop that clears the local array
  \<open>pmf[DAYSPERYEAR + 1]\<close>, the call of \<open>prob_mass_func\<close>, and the loop that adds up
  \<open>pmf[n + 1 .. DAYSPERYEAR]\<close>.
\<close>

function init_loop :: "real list \<Rightarrow> int \<Rightarrow> rain_error + real list" where
  "init_loop pmf i =
     (if i \<le> DAYSPERYEAR then bnd (wr_pmf pmf i 0) (\<lambda>pmf'. init_loop pmf' (i + 1))
      else Inr pmf)"
  by pat_completeness auto
termination
  by (relation "measure (\<lambda>(pmf, i). nat (DAYSPERYEAR + 1 - i))") auto

function sum_loop :: "real list \<Rightarrow> int \<Rightarrow> real \<Rightarrow> rain_error + real" where
  "sum_loop pmf k probability =
     (if k \<le> DAYSPERYEAR then
        bnd (rd_pmf pmf k) (\<lambda>x. sum_loop pmf (k + 1) (probability + x))
      else Inr probability)"
  by pat_completeness auto
termination
  by (relation "measure (\<lambda>(pmf, k, probability). nat (DAYSPERYEAR + 1 - k))") auto

text \<open>
  The local array is not initialised by its declaration; the model starts it as
  \<open>fresh_pmf\<close>, and \<open>init_loop\<close> overwrites every cell before any is read.
\<close>

definition fresh_pmf :: "real list" where
  "fresh_pmf = replicate (nat (DAYSPERYEAR + 1)) 0"

definition prob_rain_more_than_n :: "real list \<Rightarrow> int \<Rightarrow> rain_error + real" where
  "prob_rain_more_than_n p n =
     (if n < 0 \<or> n \<ge> DAYSPERYEAR then Inr 0
      else
        bnd (init_loop fresh_pmf 0) (\<lambda>pmf.
        bnd (prob_mass_func p pmf) (\<lambda>pmf'.
        sum_loop pmf' (n + 1) 0)))"

text \<open>
  The probability mass function of the spec (section 3): \<open>exactly_k qs k\<close> is the
  probability that exactly \<open>k\<close> of the independent trials with the success
  probabilities \<open>qs\<close> succeed, the sum over the sets \<open>S\<close> of \<open>k\<close> trials of the
  probability that the trials in \<open>S\<close> succeed and the others fail.
\<close>

definition exactly_k :: "real list \<Rightarrow> nat \<Rightarrow> real" where
  "exactly_k qs k =
     (\<Sum>S \<in> {S. S \<subseteq> {..<length qs} \<and> card S = k}.
        (\<Prod>i\<in>S. qs ! i) * (\<Prod>i\<in>{..<length qs} - S. 1 - qs ! i))"

section \<open>The program \<open>most_freq_words.c\<close>\<close>

text \<open>
  The file under \<open>src/unnamed/part_000\<close>. The model assumes that \<open>malloc\<close> and
  \<open>strdup\<close> succeed. A C string is the list of its characters before the terminating
  NUL; every string the program builds holds letters and apostrophes only.
\<close>

definition HASH_TABLE_SIZE :: nat where
  "HASH_TABLE_SIZE = 10000"

definition WORD_BUFFER_SIZE :: nat where
  "WORD_BUFFER_SIZE = 150"

text \<open>
  \<open>struct WordFreqNode\<close>: the \<open>next\<close> pointer is the tail of the list that holds the
  node, so a chain of the hash table is a \<open>WordFreqNode list\<close>, head first, and the
  table is the list of its \<open>HASH_TABLE_SIZE\<close> chains. The field \<open>count\<close> is a C
  \<open>int\<close> of 32 bits: it holds the values up to \<open>INT_MAX\<close>, and \<open>count++\<close> at
  \<open>INT_MAX\<close> is an overflow, which C leaves undefined: the error \<open>CountOverflow\<close>.
\<close>

record WordFreqNode =
  word :: string
  count :: int

definition INT_MAX :: int where
  "INT_MAX = 2147483647"

datatype wc_error =
  InvalidArgument | InputUnavailable | CountOverflow | WordListOverflow | UninitialisedRead int

text \<open>
  \<open>djb2_hash\<close>: \<open>hash\<close> is an \<open>unsigned int\<close>, so \<open>hash * 33 + c\<close> wraps at 32 bits.
  The characters of a word are below 128, so \<open>c\<close> is the same whether \<open>char\<close> is signed
  or not. No fact below depends on the hash but that it is below \<open>HASH_TABLE_SIZE\<close>.
\<close>

fun djb2_loop :: "32 word \<Rightarrow> string \<Rightarrow> 32 word" where
  "djb2_loop hash [] = hash"
| "djb2_loop hash (c # cs) = djb2_loop ((push_bit 5 hash + hash) + of_char c) cs"

definition djb2_hash :: "string \<Rightarrow> nat" where
  "djb2_hash w = unat (djb2_loop 5381 w) mod HASH_TABLE_SIZE"

definition create_WordFreqNode :: "string \<Rightarrow> WordFreqNode" where
  "create_WordFreqNode w = \<lparr>word = w, count = 1\<rparr>"

text \<open>
  The \<open>while\<close> loop of \<open>add_word\<close> walks the chain: at the first node whose word is
  \<open>w\<close> it increments the count and returns (\<open>Some\<close> of the chain as it is then), or
  overflows when the count is \<open>INT_MAX\<close>; \<open>None\<close> when it reaches the end of the chain.
\<close>

fun walk_chain ::
  "WordFreqNode list \<Rightarrow> string \<Rightarrow> wc_error + WordFreqNode list option" where
  "walk_chain [] w = Inr None"
| "walk_chain (node # rest) w =
     (if word node = w then
        (if count node = INT_MAX then Inl CountOverflow
         else Inr (Some (node\<lparr>count := count node + 1\<rparr> # rest)))
      else bnd (walk_chain rest w) (\<lambda>found. Inr (map_option (\<lambda>rest'. node # rest') found)))"

definition add_word ::
  "WordFreqNode list list \<Rightarrow> string \<Rightarrow> wc_error + WordFreqNode list list" where
  "add_word table w =
     (let search_key = djb2_hash w in
      bnd (walk_chain (table ! search_key) w) (\<lambda>found.
        case found of
          Some chain \<Rightarrow> Inr (table[search_key := chain])
        | None \<Rightarrow> Inr (table[search_key := create_WordFreqNode w # table ! search_key])))"

text \<open>
  \<open>compare_by_frequency\<close> subtracts two counts as \<open>int\<close>. The counts of the nodes of
  the table lie between 1 and \<open>INT_MAX\<close>, so the difference is in the range of \<open>int\<close>
  (lemma \<open>compare_by_frequency_range\<close>) and is modelled without wrap-around.
\<close>

definition compare_by_frequency :: "WordFreqNode \<Rightarrow> WordFreqNode \<Rightarrow> int" where
  "compare_by_frequency node_a node_b = count node_b - count node_a"

text \<open>
  \<open>isalpha\<close> and \<open>tolower\<close> in the C locale (the program never calls \<open>setlocale\<close>), on
  the byte that \<open>fgetc\<close> returned.
\<close>

definition isalpha :: "char \<Rightarrow> bool" where
  "isalpha c = (let k = (of_char c :: nat) in (65 \<le> k \<and> k \<le> 90) \<or> (97 \<le> k \<and> k \<le> 122))"

definition tolower :: "char \<Rightarrow> char" where
  "tolower c = (let k = (of_char c :: nat) in if 65 \<le> k \<and> k \<le> 90 then char_of (k + 32) else c)"

text \<open>
  The loop that reads the file. \<open>word_buffer\<close> is modelled by the characters written to
  it since \<open>pos\<close> was last reset, so \<open>pos\<close> is its length; the string handed to
  \<open>add_word\<close> is these characters (the program writes the NUL at \<open>pos\<close>).
\<close>

fun read_loop ::
  "string \<Rightarrow> WordFreqNode list list \<Rightarrow> string \<Rightarrow>
   wc_error + WordFreqNode list list \<times> string" where
  "read_loop [] hash_table word_buffer = Inr (hash_table, word_buffer)"
| "read_loop (c # cs) hash_table word_buffer =
     (if isalpha c \<or> (c = CHR 0x27 \<and> length word_buffer > 0) then
        (if length word_buffer < WORD_BUFFER_SIZE - 1
         then read_loop cs hash_table (word_buffer @ [tolower c])
         else read_loop cs hash_table word_buffer)
      else
        (if length word_buffer > 0
         then bnd (add_word hash_table word_buffer) (\<lambda>hash_table'. read_loop cs hash_table' [])
         else read_loop cs hash_table word_buffer))"

definition empty_table :: "WordFreqNode list list" where
  "empty_table = replicate HASH_TABLE_SIZE []"

text \<open>The hash table when the file has been read: the loop, then the last word.\<close>

definition count_words :: "string \<Rightarrow> wc_error + WordFreqNode list list" where
  "count_words stream =
     bnd (read_loop stream empty_table []) (\<lambda>(hash_table, word_buffer).
       if length word_buffer > 0 then add_word hash_table word_buffer else Inr hash_table)"

text \<open>
  The loops that copy the nodes into \<open>word_linked_list[HASH_TABLE_SIZE]\<close>. The array is
  modelled by the cells written so far, so \<open>count\<close> is its length; a write at
  \<open>count \<ge> HASH_TABLE_SIZE\<close> is outside the array.
\<close>

fun collect_chain :: "WordFreqNode list \<Rightarrow> WordFreqNode list \<Rightarrow> wc_error + WordFreqNode list" where
  "collect_chain [] word_linked_list = Inr word_linked_list"
| "collect_chain (node # rest) word_linked_list =
     (if length word_linked_list < HASH_TABLE_SIZE
      then collect_chain rest (word_linked_list @ [node])
      else Inl WordListOverflow)"

fun collect_table ::
  "WordFreqNode list list \<Rightarrow> WordFreqNode list \<Rightarrow> wc_error + WordFreqNode list" where
  "collect_table [] word_linked_list = Inr word_linked_list"
| "collect_table (chain # table) word_linked_list =
     bnd (collect_chain chain word_linked_list) (collect_table table)"

text \<open>
  \<open>result\<close> is a block of \<open>n\<close> pointers that \<open>malloc\<close> does not initialise: a cell is
  \<open>None\<close> until the program writes it. The loop writes the cells below \<open>count\<close> only.
\<close>

function fill_loop ::
  "WordFreqNode list \<Rightarrow> int \<Rightarrow> int \<Rightarrow> string option list \<Rightarrow> int \<Rightarrow> string option list" where
  "fill_loop word_linked_list cnt n result i =
     (if i < n then
        (if i < cnt
         then fill_loop word_linked_list cnt n
                (result[nat i := Some (word (word_linked_list ! nat i))]) (i + 1)
         else fill_loop word_linked_list cnt n result (i + 1))
      else result)"
  by pat_completeness auto
termination
  by (relation "measure (\<lambda>(word_linked_list, cnt, n, result, i). nat (n - i))") auto

text \<open>
  \<open>find_frequent_words\<close>. The file is \<open>None\<close> when \<open>fopen\<close> fails and \<open>Some\<close> of its
  bytes otherwise. The call \<open>qsort(word_linked_list, count, ..., compare_by_frequency)\<close>
  is the parameter \<open>qs\<close>: the C library fixes what it returns only up to the order of
  nodes that compare equal. \<open>main\<close> calls the function with \<open>n > 0\<close> only; what
  \<open>malloc(n * sizeof(char *))\<close> does for other \<open>n\<close> is not modelled.
\<close>

definition find_frequent_words ::
  "(WordFreqNode list \<Rightarrow> WordFreqNode list) \<Rightarrow> string option \<Rightarrow> int \<Rightarrow>
   wc_error + string option list" where
  "find_frequent_words qs file n =
     (case file of
        None \<Rightarrow> Inl InputUnavailable
      | Some stream \<Rightarrow>
          bnd (count_words stream) (\<lambda>hash_table.
          bnd (collect_table hash_table []) (\<lambda>word_linked_list.
            Inr (fill_loop (qs word_linked_list) (int (length word_linked_list)) n
                   (replicate (nat n) None) 0))))"

definition qsort_contract :: "(WordFreqNode list \<Rightarrow> WordFreqNode list) \<Rightarrow> bool" where
  "qsort_contract qs =
     (\<forall>xs. mset (qs xs) = mset xs \<and>
           sorted_wrt (\<lambda>a b. compare_by_frequency a b \<le> 0) (qs xs))"

text \<open>
  \<open>main\<close>, from the check of \<open>n\<close> on: the call, and the loop that prints the cells of
  the result. The loop tests and prints every cell below \<open>n\<close>; reading a cell that was
  never written is the error \<open>UninitialisedRead\<close>.
\<close>

function print_loop ::
  "string option list \<Rightarrow> int \<Rightarrow> int \<Rightarrow> (int \<times> string) list \<Rightarrow> wc_error + (int \<times> string) list" where
  "print_loop frequent_words n i out =
     (if i < n then
        (case frequent_words ! nat i of
           None \<Rightarrow> Inl (UninitialisedRead i)
         | Some w \<Rightarrow> print_loop frequent_words n (i + 1) (out @ [(i + 1, w)]))
      else Inr out)"
  by pat_completeness auto
termination
  by (relation "measure (\<lambda>(frequent_words, n, i, out). nat (n - i))") auto

definition main_model ::
  "(WordFreqNode list \<Rightarrow> WordFreqNode list) \<Rightarrow> string option \<Rightarrow> int \<Rightarrow>
   wc_error + (int \<times> string) list" where
  "main_model qs file n =
     (if n \<le> 0 then Inl InvalidArgument
      else bnd (find_frequent_words qs file n) (\<lambda>frequent_words.
             print_loop frequent_words n 0 []))"

subsection \<open>The words handed to \<open>add_word\<close>, and the rule of the spec\<close>

text \<open>
  \<open>word_calls\<close> lists the arguments of the calls of \<open>add_word\<close> that
  \<open>find_frequent_words\<close> makes, in order: the calls inside the reading loop and the
  call after it.
\<close>

fun word_calls_from :: "string \<Rightarrow> string \<Rightarrow> string list" where
  "word_calls_from word_buffer [] = (if length word_buffer > 0 then [word_buffer] else [])"
| "word_calls_from word_buffer (c # cs) =
     (if isalpha c \<or> (c = CHR 0x27 \<and> length word_buffer > 0) then
        (if length word_buffer < WORD_BUFFER_SIZE - 1
         then word_calls_from (word_buffer @ [tolower c]) cs
         else word_calls_from word_buffer cs)
      else
        (if length word_buffer > 0
         then word_buffer # word_calls_from [] cs
         else word_calls_from word_buffer cs))"

definition word_calls :: "string \<Rightarrow> string list" where
  "word_calls stream = word_calls_from [] stream"

text \<open>The calls of \<open>add_word\<close> for a list of words, one after the other.\<close>

fun add_words ::
  "WordFreqNode list list \<Rightarrow> string list \<Rightarrow> wc_error + WordFreqNode list list" where
  "add_words table [] = Inr table"
| "add_words table (w # ws) = bnd (add_word table w) (\<lambda>table'. add_words table' ws)"

text \<open>
  The tokenization rule as the spec words it (section 4.2): a character joins the
  current word if it is an ASCII letter, or an apostrophe when the current word is not
  empty; letters are folded to lower case; any other character ends the current word,
  which is a token if it is not empty; the end of the input ends it too.
\<close>

fun spec_tokenize :: "string \<Rightarrow> string \<Rightarrow> string list" where
  "spec_tokenize current [] = (if current \<noteq> [] then [current] else [])"
| "spec_tokenize current (c # cs) =
     (if isalpha c \<or> (c = CHR 0x27 \<and> current \<noteq> [])
      then spec_tokenize (current @ [tolower c]) cs
      else (if current \<noteq> [] then current # spec_tokenize [] cs else spec_tokenize [] cs))"

definition spec_tokens :: "string \<Rightarrow> string list" where
  "spec_tokens stream = spec_tokenize [] stream"

subsection \<open>Notions used in the proofs\<close>

text \<open>
  \<open>cnt_nodes nodes w\<close> adds up the counts of the nodes that hold \<open>w\<close>.
  \<open>table_inv\<close>: every node is in the chain of its hash, no two nodes hold the same
  word, and every count is at least 1 and at most \<open>INT_MAX\<close>.
\<close>

definition cnt_nodes :: "WordFreqNode list \<Rightarrow> string \<Rightarrow> int" where
  "cnt_nodes nodes w = sum_list (map count (filter (\<lambda>node. word node = w) nodes))"

definition table_inv :: "WordFreqNode list list \<Rightarrow> bool" where
  "table_inv table =
     (length table = HASH_TABLE_SIZE \<and>
      (\<forall>i < HASH_TABLE_SIZE. \<forall>node \<in> set (table ! i). djb2_hash (word node) = i) \<and>
      distinct (map word (concat table)) \<and>
      (\<forall>node \<in> set (concat table). 1 \<le> count node \<and> count node \<le> INT_MAX))"

text \<open>
  One sort that meets \<open>qsort_contract\<close>, to run the program on concrete inputs.
\<close>

definition insertion_qsort :: "WordFreqNode list \<Rightarrow> WordFreqNode list" where
  "insertion_qsort = sort_key (\<lambda>node. - count node)"

text \<open>
  \<open>many_words\<close> is the text of the 10001 words \<open>aaa\<close>, \<open>aab\<close>, ..., each followed by a
  space.
\<close>

definition three_letters :: "nat \<Rightarrow> string" where
  "three_letters k =
     [char_of (97 + k div 676), char_of (97 + k div 26 mod 26), char_of (97 + k mod 26)]"

definition many_words :: string where
  "many_words = concat (map (\<lambda>k. three_letters k @ '' '') [0..<10001])"

section \<open>Properties of \<open>rain_probability.c\<close>\<close>

subsection \<open>Facts about the loops\<close>

declare inner_loop.simps [simp del] pmf_loop.simps [simp del]
  init_loop.simps [simp del] sum_loop.simps [simp del]

lemma rd_p_ok: "0 \<le> i \<Longrightarrow> i < int (length p) \<Longrightarrow> rd_p p i = Inr (p ! nat i)"
  by (simp add: rd_p_def)

lemma rd_p_oob: "int (length p) \<le> i \<Longrightarrow> rd_p p i = Inl (P_index i)"
  by (simp add: rd_p_def)

lemma rd_pmf_ok: "0 \<le> i \<Longrightarrow> i < int (length pmf) \<Longrightarrow> rd_pmf pmf i = Inr (pmf ! nat i)"
  by (simp add: rd_pmf_def)

lemma wr_pmf_ok:
  "0 \<le> i \<Longrightarrow> i < int (length pmf) \<Longrightarrow> wr_pmf pmf i v = Inr (pmf[nat i := v])"
  by (simp add: wr_pmf_def)

lemma inner_loop_nth:
  "0 \<le> i \<Longrightarrow> i < int (length p) \<Longrightarrow> int n < int (length pmf) \<Longrightarrow>
   \<exists>pmf'. inner_loop p i pmf (int n) = Inr pmf' \<and> length pmf' = length pmf \<and>
     (\<forall>k < length pmf. pmf' ! k =
        (if 1 \<le> k \<and> k \<le> n then p ! nat i * pmf ! (k - 1) + (1 - p ! nat i) * pmf ! k
         else pmf ! k))"
proof (induction n arbitrary: pmf)
  case 0
  then show ?case by (subst inner_loop.simps) simp
next
  case (Suc n)
  let ?x = "p ! nat i"
  let ?pmf1 = "pmf[Suc n := ?x * pmf ! n + (1 - ?x) * pmf ! Suc n]"
  have len: "int n < int (length ?pmf1)" using Suc.prems by simp
  obtain pmf' where r: "inner_loop p i ?pmf1 (int n) = Inr pmf'"
    and l: "length pmf' = length ?pmf1"
    and c: "\<forall>k < length ?pmf1. pmf' ! k =
        (if 1 \<le> k \<and> k \<le> n then ?x * ?pmf1 ! (k - 1) + (1 - ?x) * ?pmf1 ! k
         else ?pmf1 ! k)"
    using Suc.IH [OF Suc.prems(1) Suc.prems(2) len] by blast
  have step: "inner_loop p i pmf (int (Suc n)) = inner_loop p i ?pmf1 (int n)"
    using Suc.prems
    by (subst inner_loop.simps) (simp add: rd_p_ok rd_pmf_ok wr_pmf_ok nat_add_distrib)
  have "\<forall>k < length pmf. pmf' ! k =
        (if 1 \<le> k \<and> k \<le> Suc n then ?x * pmf ! (k - 1) + (1 - ?x) * pmf ! k
         else pmf ! k)"
  proof (intro allI impI)
    fix k assume k: "k < length pmf"
    show "pmf' ! k = (if 1 \<le> k \<and> k \<le> Suc n then ?x * pmf ! (k - 1) + (1 - ?x) * pmf ! k
         else pmf ! k)"
      using c [rule_format, of k] k Suc.prems(3)
      by (cases "k = Suc n") (auto simp: nth_list_update)
  qed
  with r l step show ?case by simp
qed

lemma trial_sum:
  fixes f :: "nat \<Rightarrow> real"
  assumes "1 \<le> m"
  shows "(\<Sum>k<Suc m. (if k = 0 then (1 - x) * f 0
                      else if k < m then x * f (k - 1) + (1 - x) * f k
                      else x * f (m - 1))) = (\<Sum>k<m. f k)"
proof -
  let ?g = "\<lambda>k. if k = 0 then 0 else x * f (k - 1)"
  let ?h = "\<lambda>k. if k < m then (1 - x) * f k else 0"
  have "(\<Sum>k<Suc m. (if k = 0 then (1 - x) * f 0
                      else if k < m then x * f (k - 1) + (1 - x) * f k
                      else x * f (m - 1))) = (\<Sum>k<Suc m. ?g k + ?h k)"
    using assms by (intro sum.cong) (auto simp: less_Suc_eq)
  also have "\<dots> = (\<Sum>k<Suc m. ?g k) + (\<Sum>k<Suc m. ?h k)"
    by (rule sum.distrib)
  also have "(\<Sum>k<Suc m. ?g k) = x * (\<Sum>k<m. f k)"
    by (simp add: sum.lessThan_Suc_shift sum_distrib_left del: sum.lessThan_Suc)
  also have "(\<Sum>k<Suc m. ?h k) = (1 - x) * (\<Sum>k<m. f k)"
    by (simp add: sum_distrib_left)
  finally show ?thesis by (simp add: algebra_simps)
qed

lemma pmf_loop_step:
  assumes "1 \<le> i" "i \<le> d" "i < int (length p)" "i < int (length pmf)"
  shows "\<exists>pmf3. pmf_loop d p pmf i = pmf_loop d p pmf3 (i + 1) \<and> length pmf3 = length pmf \<and>
     (\<forall>k < length pmf. pmf3 ! k =
        (if k = 0 then (1 - p ! nat i) * pmf ! 0
         else if k < nat i then p ! nat i * pmf ! (k - 1) + (1 - p ! nat i) * pmf ! k
         else if k = nat i then p ! nat i * pmf ! (nat i - 1)
         else pmf ! k))"
proof -
  let ?x = "p ! nat i"
  let ?pmf1 = "pmf[nat i := ?x * pmf ! nat (i - 1)]"
  define m where "m = nat (i - 1)"
  have m: "i = int (Suc m)" using assms(1) by (simp add: m_def)
  have i0: "0 \<le> i" using assms(1) by simp
  have lm: "int m < int (length ?pmf1)" using assms(4) m by simp
  obtain pmf2 where r: "inner_loop p i ?pmf1 (int m) = Inr pmf2"
    and l: "length pmf2 = length ?pmf1"
    and c: "\<forall>k < length ?pmf1. pmf2 ! k =
        (if 1 \<le> k \<and> k \<le> m then ?x * ?pmf1 ! (k - 1) + (1 - ?x) * ?pmf1 ! k
         else ?pmf1 ! k)"
    using inner_loop_nth [OF i0 assms(3) lm] by blast
  let ?pmf3 = "pmf2[0 := (1 - ?x) * pmf2 ! 0]"
  have im: "i - 1 = int m" using m by simp
  have step: "pmf_loop d p pmf i = pmf_loop d p ?pmf3 (i + 1)"
  proof -
    have l0: "(0::int) < int (length pmf2)" "int m < int (length pmf)"
      using l lm by auto
    show ?thesis
      using assms l r l0
      by (subst pmf_loop.simps) (simp add: rd_p_ok rd_pmf_ok wr_pmf_ok im)
  qed
  have "\<forall>k < length pmf. ?pmf3 ! k =
        (if k = 0 then (1 - ?x) * pmf ! 0
         else if k < nat i then ?x * pmf ! (k - 1) + (1 - ?x) * pmf ! k
         else if k = nat i then ?x * pmf ! (nat i - 1)
         else pmf ! k)"
  proof (intro allI impI)
    fix k assume k: "k < length pmf"
    show "?pmf3 ! k =
        (if k = 0 then (1 - ?x) * pmf ! 0
         else if k < nat i then ?x * pmf ! (k - 1) + (1 - ?x) * pmf ! k
         else if k = nat i then ?x * pmf ! (nat i - 1)
         else pmf ! k)"
    proof -
      have ni: "nat i = Suc m" "nat (i - 1) = m" using m by simp_all
      show ?thesis
        using c [rule_format, of k] c [rule_format, of 0] k l assms(4)
        by (auto simp: nth_list_update ni)
    qed
  qed
  with step l show ?thesis by (intro exI [of _ ?pmf3]) simp
qed

lemma pmf_loop_step_sum:
  assumes "1 \<le> i" "i \<le> d" "i < int (length p)" "i < int (length pmf)"
  shows "\<exists>pmf3. pmf_loop d p pmf i = pmf_loop d p pmf3 (i + 1) \<and> length pmf3 = length pmf \<and>
     (\<Sum>k<nat (i + 1). pmf3 ! k) = (\<Sum>k<nat i. pmf ! k) \<and>
     (\<forall>k. nat i < k \<and> k < length pmf \<longrightarrow> pmf3 ! k = pmf ! k)"
proof -
  let ?x = "p ! nat i"
  obtain pmf3 where s: "pmf_loop d p pmf i = pmf_loop d p pmf3 (i + 1)"
    and l: "length pmf3 = length pmf"
    and c: "\<forall>k < length pmf. pmf3 ! k =
        (if k = 0 then (1 - ?x) * pmf ! 0
         else if k < nat i then ?x * pmf ! (k - 1) + (1 - ?x) * pmf ! k
         else if k = nat i then ?x * pmf ! (nat i - 1)
         else pmf ! k)"
    using pmf_loop_step [OF assms] by blast
  have ni: "nat (i + 1) = Suc (nat i)" "1 \<le> nat i" "nat i < length pmf"
    using assms by simp_all
  have "(\<Sum>k<Suc (nat i). pmf3 ! k) =
        (\<Sum>k<Suc (nat i). (if k = 0 then (1 - ?x) * pmf ! 0
                      else if k < nat i then ?x * pmf ! (k - 1) + (1 - ?x) * pmf ! k
                      else ?x * pmf ! (nat i - 1)))"
  proof (intro sum.cong refl)
    fix k assume "k \<in> {..<Suc (nat i)}"
    then have k: "k < length pmf" "k \<le> nat i" using ni(3) by auto
    show "pmf3 ! k = (if k = 0 then (1 - ?x) * pmf ! 0
                      else if k < nat i then ?x * pmf ! (k - 1) + (1 - ?x) * pmf ! k
                      else ?x * pmf ! (nat i - 1))"
      using c [rule_format, OF k(1)] k(2) by auto
  qed
  also have "\<dots> = (\<Sum>k<nat i. pmf ! k)"
    by (rule trial_sum [OF ni(2)])
  finally have "(\<Sum>k<nat (i + 1). pmf3 ! k) = (\<Sum>k<nat i. pmf ! k)"
    by (simp only: ni(1))
  moreover have "\<forall>k. nat i < k \<and> k < length pmf \<longrightarrow> pmf3 ! k = pmf ! k"
    using c by auto
  ultimately show ?thesis using s l by blast
qed

lemma pmf_loop_sum:
  "n = nat (d + 1 - i) \<Longrightarrow> 1 \<le> i \<Longrightarrow> i \<le> d + 1 \<Longrightarrow> d < int (length p) \<Longrightarrow>
   d < int (length pmf) \<Longrightarrow>
   \<exists>pmf'. pmf_loop d p pmf i = Inr pmf' \<and> length pmf' = length pmf \<and>
     (\<Sum>k<nat (d + 1). pmf' ! k) = (\<Sum>k<nat i. pmf ! k) \<and>
     (\<forall>k. nat d < k \<and> k < length pmf \<longrightarrow> pmf' ! k = pmf ! k)"
proof (induction n arbitrary: i pmf)
  case 0
  then have "i = d + 1" by simp
  then show ?case by (subst pmf_loop.simps) simp
next
  case (Suc n)
  then have id: "i \<le> d" by simp
  obtain pmf3 where s: "pmf_loop d p pmf i = pmf_loop d p pmf3 (i + 1)"
    and l: "length pmf3 = length pmf"
    and sm: "(\<Sum>k<nat (i + 1). pmf3 ! k) = (\<Sum>k<nat i. pmf ! k)"
    and c: "\<forall>k. nat i < k \<and> k < length pmf \<longrightarrow> pmf3 ! k = pmf ! k"
    using pmf_loop_step_sum [of i d p pmf] Suc.prems id by force
  have "\<exists>pmf'. pmf_loop d p pmf3 (i + 1) = Inr pmf' \<and> length pmf' = length pmf3 \<and>
     (\<Sum>k<nat (d + 1). pmf' ! k) = (\<Sum>k<nat (i + 1). pmf3 ! k) \<and>
     (\<forall>k. nat d < k \<and> k < length pmf3 \<longrightarrow> pmf' ! k = pmf3 ! k)"
    using Suc.prems id l by (intro Suc.IH) simp_all
  then obtain pmf' where r: "pmf_loop d p pmf3 (i + 1) = Inr pmf'"
    and l': "length pmf' = length pmf3"
    and sm': "(\<Sum>k<nat (d + 1). pmf' ! k) = (\<Sum>k<nat (i + 1). pmf3 ! k)"
    and c': "\<forall>k. nat d < k \<and> k < length pmf3 \<longrightarrow> pmf' ! k = pmf3 ! k"
    by blast
  have "\<forall>k. nat d < k \<and> k < length pmf \<longrightarrow> pmf' ! k = pmf ! k"
    using c c' l id by auto
  with s r l l' sm sm' show ?case by simp
qed

lemma pmf_loop_past_p:
  "n = nat (d - i) \<Longrightarrow> 1 \<le> i \<Longrightarrow> i \<le> d \<Longrightarrow> int (length p) = d \<Longrightarrow> d < int (length pmf) \<Longrightarrow>
   pmf_loop d p pmf i = Inl (P_index d)"
proof (induction n arbitrary: i pmf)
  case 0
  then have "i = d" by simp
  with 0 show ?case by (subst pmf_loop.simps) (simp add: rd_p_oob)
next
  case (Suc n)
  then have id: "i < d" by simp
  obtain pmf3 where s: "pmf_loop d p pmf i = pmf_loop d p pmf3 (i + 1)"
    and l: "length pmf3 = length pmf"
    using pmf_loop_step [of i d p pmf] Suc.prems id by force
  have "pmf_loop d p pmf3 (i + 1) = Inl (P_index d)"
    using Suc.prems id l by (intro Suc.IH) simp_all
  with s show ?case by simp
qed

lemma inner_loop_agree:
  "rd_p p i = rd_p q i \<Longrightarrow> inner_loop p i pmf (int n) = inner_loop q i pmf (int n)"
proof (induction n arbitrary: pmf)
  case 0
  show ?case by (simp add: inner_loop.simps [of _ _ _ 0])
next
  case (Suc n)
  have step: "\<And>r. inner_loop r i pmf (int (Suc n)) =
        bnd (rd_p r i) (\<lambda>pi.
        bnd (rd_pmf pmf (int n)) (\<lambda>a.
        bnd (rd_p r i) (\<lambda>pi'.
        bnd (rd_pmf pmf (int (Suc n))) (\<lambda>b.
        bnd (wr_pmf pmf (int (Suc n)) (pi * a + (1 - pi') * b)) (\<lambda>pmf'.
        inner_loop r i pmf' (int n))))))"
    by (subst inner_loop.simps) simp
  show ?case
    using Suc by (simp only: step)
qed

lemma inner_loop_agree_int:
  "rd_p p i = rd_p q i \<Longrightarrow> inner_loop p i pmf j = inner_loop q i pmf j"
proof (cases "0 \<le> j")
  case True
  assume "rd_p p i = rd_p q i"
  from inner_loop_agree [OF this, of pmf "nat j"] True show ?thesis by simp
next
  case False
  then show ?thesis by (simp add: inner_loop.simps [of _ _ _ j])
qed

lemma pmf_loop_agree:
  "n = nat (d + 1 - i) \<Longrightarrow> \<forall>k. i \<le> k \<and> k \<le> d \<longrightarrow> rd_p p k = rd_p q k \<Longrightarrow>
   pmf_loop d p pmf i = pmf_loop d q pmf i"
proof (induction n arbitrary: i pmf)
  case 0
  then have "\<not> i \<le> d" by simp
  then show ?case by (simp add: pmf_loop.simps [of d _ _ i])
next
  case (Suc n)
  then have id: "i \<le> d" by simp
  have e: "rd_p p i = rd_p q i" using Suc.prems id by simp
  have ih: "\<And>pmf. pmf_loop d p pmf (i + 1) = pmf_loop d q pmf (i + 1)"
    using Suc.prems by (intro Suc.IH) simp_all
  show ?case
    by (simp add: pmf_loop.simps [of d _ _ i] e ih inner_loop_agree_int [OF e])
qed

lemma init_loop_zeros:
  "n = nat (DAYSPERYEAR + 1 - i) \<Longrightarrow> 0 \<le> i \<Longrightarrow> int m = DAYSPERYEAR + 1 \<Longrightarrow>
   init_loop (replicate m 0) i = Inr (replicate m 0)"
proof (induction n arbitrary: i)
  case 0
  then have "\<not> i \<le> DAYSPERYEAR" by simp
  then show ?case by (subst init_loop.simps) simp
next
  case (Suc n)
  then have i: "i \<le> DAYSPERYEAR" "nat i < m" by auto
  have w: "wr_pmf (replicate m 0) i 0 = Inr (replicate m 0)"
    using Suc.prems(2) i
    by (simp add: wr_pmf_def list_eq_iff_nth_eq nth_list_update)
  have "init_loop (replicate m 0) (i + 1) = Inr (replicate m 0)"
    using Suc.prems by (intro Suc.IH) simp_all
  with w i show ?case by (subst init_loop.simps) simp
qed

lemma init_loop_fresh: "init_loop fresh_pmf 0 = Inr fresh_pmf"
  unfolding fresh_pmf_def
  by (rule init_loop_zeros [OF refl]) (simp_all add: DAYSPERYEAR_def)

lemma sum_loop_ok:
  "n = nat (DAYSPERYEAR + 1 - k) \<Longrightarrow> 0 \<le> k \<Longrightarrow> DAYSPERYEAR < int (length pmf) \<Longrightarrow>
   \<exists>r. sum_loop pmf k acc = Inr r"
proof (induction n arbitrary: k acc)
  case 0
  then have "\<not> k \<le> DAYSPERYEAR" by simp
  then show ?case by (subst sum_loop.simps) simp
next
  case (Suc n)
  then have k: "k \<le> DAYSPERYEAR" by simp
  have "\<exists>r. sum_loop pmf (k + 1) (acc + pmf ! nat k) = Inr r"
    using Suc.prems by (intro Suc.IH) simp_all
  with k Suc.prems show ?case
    by (subst sum_loop.simps) (simp add: rd_pmf_ok)
qed

lemma prob_mass_func_past_p:
  assumes "int (length p) = DAYSPERYEAR"
  shows "prob_mass_func p fresh_pmf = Inl (P_index DAYSPERYEAR)"
proof -
  have "pmf_loop DAYSPERYEAR p (fresh_pmf[0 := 1]) 1 = Inl (P_index DAYSPERYEAR)"
    using assms
    by (intro pmf_loop_past_p [OF refl]) (simp_all add: DAYSPERYEAR_def fresh_pmf_def)
  then show ?thesis
    by (simp add: prob_mass_func_def wr_pmf_def fresh_pmf_def DAYSPERYEAR_def)
qed

lemma prob_rain_past_p:
  assumes "int (length p) = DAYSPERYEAR" "0 \<le> n" "n < DAYSPERYEAR"
  shows "prob_rain_more_than_n p n = Inl (P_index DAYSPERYEAR)"
  using assms
  by (simp add: prob_rain_more_than_n_def init_loop_fresh prob_mass_func_past_p)

lemma pmf_loop_total:
  assumes "0 \<le> d" "d < int (length p)" "d < int (length pmf)" "pmf ! 0 = 1"
    and zeros: "\<forall>k. 1 \<le> k \<and> k < length pmf \<longrightarrow> pmf ! k = 0"
  shows "\<exists>pmf'. pmf_loop d p pmf 1 = Inr pmf' \<and> length pmf' = length pmf \<and> sum_list pmf' = 1"
proof -
  obtain pmf' where r: "pmf_loop d p pmf 1 = Inr pmf'"
    and l: "length pmf' = length pmf"
    and s: "(\<Sum>k<nat (d + 1). pmf' ! k) = (\<Sum>k<nat 1. pmf ! k)"
    and c: "\<forall>k. nat d < k \<and> k < length pmf \<longrightarrow> pmf' ! k = pmf ! k"
    using pmf_loop_sum [OF refl, of 1 d p pmf] assms(1-3) by auto
  let ?m = "nat (d + 1)"
  have m: "?m \<le> length pmf'" using assms(1,3) l by simp
  have rest: "(\<Sum>k = ?m..<length pmf'. pmf' ! k) = 0"
  proof (rule sum.neutral, rule ballI)
    fix k assume "k \<in> {?m..<length pmf'}"
    then have k: "nat d < k" "k < length pmf" "1 \<le> k" using assms(1) l by auto
    then show "pmf' ! k = 0" using c zeros by simp
  qed
  have "sum_list pmf' = (\<Sum>k = 0..<length pmf'. pmf' ! k)"
    by (rule sum_list_sum_nth)
  also have "\<dots> = (\<Sum>k = 0..<?m. pmf' ! k) + (\<Sum>k = ?m..<length pmf'. pmf' ! k)"
    using m by (simp add: sum.atLeastLessThan_concat)
  also have "\<dots> = (\<Sum>k<nat 1. pmf ! k)"
    using s rest by (simp add: atLeast0LessThan)
  also have "\<dots> = 1"
    using assms(4) by simp
  finally show ?thesis using r l by simp
qed

subsection \<open>What the recurrence computes\<close>

text \<open>
  Folding a trial in is the recurrence of the mass function. So where the reads of
  \<open>p\<close> are in range, the loop of \<open>prob_mass_func\<close> leaves in \<open>pmf[k]\<close> the
  probability of exactly \<open>k\<close> successes among the trials \<open>p[1], ..., p[d]\<close>; and a
  vector with a cell at index 365 makes \<open>prob_rain_more_than_n\<close> return the tail
  probability of the trials \<open>p[1], ..., p[365]\<close>.
\<close>

lemma exactly_k_Nil: "exactly_k [] k = (if k = 0 then 1 else 0)"
proof -
  have "{S. S \<subseteq> {..<length ([]::real list)} \<and> card S = k} = (if k = 0 then {{}} else {})"
    by auto
  then show ?thesis by (simp add: exactly_k_def)
qed

lemma exactly_k_too_many: "length qs < k \<Longrightarrow> exactly_k qs k = 0"
proof -
  assume l: "length qs < k"
  have "{S. S \<subseteq> {..<length qs} \<and> card S = k} = {}"
  proof (rule ccontr)
    assume "{S. S \<subseteq> {..<length qs} \<and> card S = k} \<noteq> {}"
    then obtain S where "S \<subseteq> {..<length qs}" "card S = k" by auto
    then have "k \<le> card {..<length qs}" by (metis card_mono finite_lessThan)
    with l show False by simp
  qed
  then show ?thesis by (simp only: exactly_k_def sum.empty)
qed

lemma exactly_k_snoc:
  "exactly_k (qs @ [q]) k =
     (1 - q) * exactly_k qs k + (if k = 0 then 0 else q * exactly_k qs (k - 1))"
proof -
  let ?n = "length qs"
  let ?A = "{S. S \<subseteq> {..<?n} \<and> card S = k}"
  let ?B = "{T. T \<subseteq> {..<?n} \<and> Suc (card T) = k}"
  let ?t = "\<lambda>S. (\<Prod>i\<in>S. (qs @ [q]) ! i) * (\<Prod>i\<in>{..<Suc ?n} - S. 1 - (qs @ [q]) ! i)"
  let ?u = "\<lambda>S. (\<Prod>i\<in>S. qs ! i) * (\<Prod>i\<in>{..<?n} - S. 1 - qs ! i)"
  have fin: "finite ?A" "finite ?B" by simp_all
  have split: "{S. S \<subseteq> {..<Suc ?n} \<and> card S = k} = ?A \<union> insert ?n ` ?B"
  proof (intro equalityI subsetI)
    fix S assume "S \<in> {S. S \<subseteq> {..<Suc ?n} \<and> card S = k}"
    then have S: "S \<subseteq> {..<Suc ?n}" "card S = k" by simp_all
    then have f: "finite S" by (meson finite_lessThan finite_subset)
    show "S \<in> ?A \<union> insert ?n ` ?B"
    proof (cases "?n \<in> S")
      case False
      with S have "S \<subseteq> {..<?n}" by (auto simp: lessThan_Suc)
      with S show ?thesis by simp
    next
      case True
      let ?T = "S - {?n}"
      have "?T \<subseteq> {..<?n}" using S by (auto simp: lessThan_Suc)
      moreover have "Suc (card ?T) = k" using card.remove [OF f True] S(2) by simp
      moreover have "S = insert ?n ?T" using True by auto
      ultimately show ?thesis by blast
    qed
  next
    fix S assume "S \<in> ?A \<union> insert ?n ` ?B"
    then show "S \<in> {S. S \<subseteq> {..<Suc ?n} \<and> card S = k}"
    proof
      assume "S \<in> ?A"
      then show ?thesis by (auto simp: lessThan_Suc)
    next
      assume "S \<in> insert ?n ` ?B"
      then obtain T where T: "T \<subseteq> {..<?n}" "Suc (card T) = k" "S = insert ?n T" by auto
      then have "finite T" "?n \<notin> T" by (auto intro: finite_subset)
      with T show ?thesis by (auto simp: lessThan_Suc)
    qed
  qed
  have disj: "?A \<inter> insert ?n ` ?B = {}" by auto
  have inj: "inj_on (insert ?n) ?B"
  proof (rule inj_onI)
    fix T T' assume "T \<in> ?B" "T' \<in> ?B" "insert ?n T = insert ?n T'"
    then have "?n \<notin> T" "?n \<notin> T'" "insert ?n T = insert ?n T'" by auto
    then show "T = T'" by (metis insert_ident)
  qed
  have tA: "?t S = (1 - q) * ?u S" if "S \<in> ?A" for S
  proof -
    from that have S: "S \<subseteq> {..<?n}" by simp
    have c: "{..<Suc ?n} - S = insert ?n ({..<?n} - S)" using S by (auto simp: lessThan_Suc)
    have "(\<Prod>i\<in>S. (qs @ [q]) ! i) = (\<Prod>i\<in>S. qs ! i)"
      using S by (intro prod.cong) (auto simp: nth_append)
    moreover have "(\<Prod>i\<in>{..<?n} - S. 1 - (qs @ [q]) ! i) = (\<Prod>i\<in>{..<?n} - S. 1 - qs ! i)"
      by (intro prod.cong) (auto simp: nth_append)
    ultimately show ?thesis by (simp add: c)
  qed
  have tB: "?t (insert ?n T) = q * ?u T" if "T \<in> ?B" for T
  proof -
    from that have T: "T \<subseteq> {..<?n}" by simp
    then have f: "finite T" "?n \<notin> T" by (auto intro: finite_subset)
    have c: "{..<Suc ?n} - insert ?n T = {..<?n} - T" by (auto simp: lessThan_Suc)
    have "(\<Prod>i\<in>T. (qs @ [q]) ! i) = (\<Prod>i\<in>T. qs ! i)"
      using T by (intro prod.cong) (auto simp: nth_append)
    moreover have "(\<Prod>i\<in>{..<?n} - T. 1 - (qs @ [q]) ! i) = (\<Prod>i\<in>{..<?n} - T. 1 - qs ! i)"
      by (intro prod.cong) (auto simp: nth_append)
    ultimately show ?thesis using f by (simp add: c)
  qed
  have "exactly_k (qs @ [q]) k = sum ?t (?A \<union> insert ?n ` ?B)"
    by (simp add: exactly_k_def split)
  also have "\<dots> = sum ?t ?A + sum ?t (insert ?n ` ?B)"
    using fin disj by (intro sum.union_disjoint) simp_all
  also have "sum ?t (insert ?n ` ?B) = (\<Sum>T\<in>?B. ?t (insert ?n T))"
    using inj by (simp add: sum.reindex)
  also have "\<dots> = (\<Sum>T\<in>?B. q * ?u T)"
    using tB by (intro sum.cong) simp_all
  also have "sum ?t ?A = (\<Sum>S\<in>?A. (1 - q) * ?u S)"
    using tA by (intro sum.cong) simp_all
  finally have e: "exactly_k (qs @ [q]) k = (1 - q) * sum ?u ?A + q * sum ?u ?B"
    by (simp add: sum_distrib_left)
  show ?thesis
  proof (cases k)
    case 0
    then have "?B = {}" by simp
    with e 0 show ?thesis by (simp add: exactly_k_def)
  next
    case (Suc j)
    then have "?B = {T. T \<subseteq> {..<?n} \<and> card T = k - 1}" by auto
    with e Suc show ?thesis by (simp add: exactly_k_def)
  qed
qed

lemma pmf_loop_exact:
  "n = nat (d + 1 - i) \<Longrightarrow> 1 \<le> i \<Longrightarrow> i \<le> d + 1 \<Longrightarrow> d < int (length p) \<Longrightarrow>
   d < int (length pmf) \<Longrightarrow>
   \<forall>k < length pmf. pmf ! k = exactly_k (take (nat i - 1) (tl p)) k \<Longrightarrow>
   \<exists>pmf'. pmf_loop d p pmf i = Inr pmf' \<and> length pmf' = length pmf \<and>
     (\<forall>k < length pmf. pmf' ! k = exactly_k (take (nat d) (tl p)) k)"
proof (induction n arbitrary: i pmf)
  case 0
  then have "i = d + 1" by simp
  with 0 show ?case by (subst pmf_loop.simps) (simp add: nat_add_distrib)
next
  case (Suc n)
  then have id: "i \<le> d" by simp
  define x where "x = p ! nat i"
  define qs where "qs = take (nat i - 1) (tl p)"
  define qs' where "qs' = take (nat (i + 1) - 1) (tl p)"
  obtain pmf3 where s: "pmf_loop d p pmf i = pmf_loop d p pmf3 (i + 1)"
    and l: "length pmf3 = length pmf"
    and c: "\<forall>k < length pmf. pmf3 ! k =
        (if k = 0 then (1 - x) * pmf ! 0
         else if k < nat i then x * pmf ! (k - 1) + (1 - x) * pmf ! k
         else if k = nat i then x * pmf ! (nat i - 1)
         else pmf ! k)"
    using pmf_loop_step [of i d p pmf] Suc.prems id unfolding x_def by force
  have lq: "length qs = nat i - 1" using Suc.prems id by (simp add: qs_def)
  have snoc: "qs' = qs @ [x]"
  proof -
    have "nat i - 1 < length (tl p)" using Suc.prems id by simp
    then have "take (Suc (nat i - 1)) (tl p) = take (nat i - 1) (tl p) @ [tl p ! (nat i - 1)]"
      by (rule take_Suc_conv_app_nth)
    moreover have "tl p ! (nat i - 1) = x" using Suc.prems id by (simp add: nth_tl x_def)
    moreover have "nat (i + 1) - 1 = Suc (nat i - 1)" using Suc.prems by simp
    ultimately show ?thesis by (simp only: qs_def qs'_def)
  qed
  have old: "\<And>j. j < length pmf \<Longrightarrow> pmf ! j = exactly_k qs j"
    using Suc.prems(6) by (simp add: qs_def)
  have i1: "1 \<le> nat i" "nat i < length pmf" "0 < i" "nat i \<noteq> 0" "nat i - 1 < length pmf"
    using Suc.prems id by simp_all
  have inv: "\<forall>k < length pmf3. pmf3 ! k = exactly_k qs' k"
  proof (intro allI impI)
    fix k assume "k < length pmf3"
    then have k: "k < length pmf" using l by simp
    consider "k = 0" | "0 < k" "k < nat i" | "k = nat i" | "nat i < k" by linarith
    then show "pmf3 ! k = exactly_k qs' k"
    proof cases
      case 1
      with c k old [of 0] show ?thesis by (simp add: snoc exactly_k_snoc)
    next
      case 2
      with c k old [of k] old [of "k - 1"] show ?thesis by (simp add: snoc exactly_k_snoc)
    next
      case 3
      have "exactly_k qs (nat i) = 0" using lq i1 by (intro exactly_k_too_many) simp
      with 3 c [rule_format, OF k] i1 old [OF i1(5)] show ?thesis
        by (simp add: snoc exactly_k_snoc)
    next
      case 4
      have "exactly_k qs k = 0" "exactly_k qs (k - 1) = 0"
        using lq i1 4 by (auto intro!: exactly_k_too_many)
      with 4 c k old [of k] show ?thesis by (simp add: snoc exactly_k_snoc)
    qed
  qed
  have "\<exists>pmf'. pmf_loop d p pmf3 (i + 1) = Inr pmf' \<and> length pmf' = length pmf3 \<and>
     (\<forall>k < length pmf3. pmf' ! k = exactly_k (take (nat d) (tl p)) k)"
    using Suc.prems id l inv unfolding qs'_def by (intro Suc.IH) simp_all
  with s l show ?case by simp
qed

lemma sum_loop_value:
  "n = nat (DAYSPERYEAR + 1 - k) \<Longrightarrow> 0 \<le> k \<Longrightarrow> k \<le> DAYSPERYEAR + 1 \<Longrightarrow>
   int (length pmf) = DAYSPERYEAR + 1 \<Longrightarrow>
   sum_loop pmf k acc = Inr (acc + (\<Sum>j = nat k..<length pmf. pmf ! j))"
proof (induction n arbitrary: k acc)
  case 0
  then have "k = DAYSPERYEAR + 1" by simp
  with 0 show ?case by (subst sum_loop.simps) simp
next
  case (Suc n)
  then have k: "k \<le> DAYSPERYEAR" "nat k < length pmf" by auto
  have "sum_loop pmf (k + 1) (acc + pmf ! nat k) =
      Inr (acc + pmf ! nat k + (\<Sum>j = nat (k + 1)..<length pmf. pmf ! j))"
    using Suc.prems by (intro Suc.IH) simp_all
  moreover have "(\<Sum>j = nat k..<length pmf. pmf ! j) =
      pmf ! nat k + (\<Sum>j = nat (k + 1)..<length pmf. pmf ! j)"
    using k Suc.prems(2) by (simp add: sum.atLeast_Suc_lessThan nat_add_distrib)
  ultimately show ?case
    using k Suc.prems by (subst sum_loop.simps) (simp add: rd_pmf_ok)
qed

lemma prob_rain_more_than_n_value:
  assumes "DAYSPERYEAR < int (length p)" "0 \<le> n" "n < DAYSPERYEAR"
  shows "prob_rain_more_than_n p n =
         Inr (\<Sum>k = nat n + 1..<366. exactly_k (take 365 (tl p)) k)"
proof -
  let ?pmf0 = "fresh_pmf[0 := 1]"
  have l0: "length ?pmf0 = 366" by (simp add: fresh_pmf_def DAYSPERYEAR_def)
  have i0: "\<forall>k < length ?pmf0. ?pmf0 ! k = exactly_k (take (nat 1 - 1) (tl p)) k"
    by (simp add: exactly_k_Nil fresh_pmf_def DAYSPERYEAR_def nth_list_update)
  obtain pmf where r: "pmf_loop DAYSPERYEAR p ?pmf0 1 = Inr pmf"
    and l: "length pmf = length ?pmf0"
    and e: "\<forall>k < length ?pmf0. pmf ! k = exactly_k (take (nat DAYSPERYEAR) (tl p)) k"
    using pmf_loop_exact [OF refl _ _ _ _ i0, of DAYSPERYEAR] assms(1) l0
    by (auto simp: DAYSPERYEAR_def)
  have m: "prob_mass_func p fresh_pmf = Inr pmf"
    using r by (simp add: prob_mass_func_def wr_pmf_def fresh_pmf_def DAYSPERYEAR_def)
  have "sum_loop pmf (n + 1) 0 = Inr (0 + (\<Sum>j = nat (n + 1)..<length pmf. pmf ! j))"
    using assms(2,3) l l0 by (intro sum_loop_value [OF refl]) (simp_all add: DAYSPERYEAR_def)
  also have "(\<Sum>j = nat (n + 1)..<length pmf. pmf ! j) =
      (\<Sum>k = nat n + 1..<366. exactly_k (take 365 (tl p)) k)"
    using e l l0 assms(2) by (intro sum.cong) (simp_all add: DAYSPERYEAR_def nat_add_distrib)
  finally show ?thesis
    using assms(2,3) m by (simp add: prob_rain_more_than_n_def init_loop_fresh)
qed

lemma exactly_k_zeros: "exactly_k (replicate m 0) k = (if k = 0 then 1 else 0)"
proof (induction m arbitrary: k)
  case 0
  show ?case by (simp add: exactly_k_Nil)
next
  case (Suc m)
  have "replicate (Suc m) (0::real) = replicate m 0 @ [0]"
    by (simp add: replicate_append_same)
  then show ?case by (simp only: exactly_k_snoc Suc.IH) simp
qed

lemma exactly_k_zeros_then: 
  "exactly_k (replicate m 0 @ [x]) k = (if k = 0 then 1 - x else if k = 1 then x else 0)"
  by (simp add: exactly_k_snoc exactly_k_zeros)

subsection \<open>The guard on \<open>n\<close>\<close>

text \<open>
  C3. For every vector \<open>p\<close> and every \<open>n\<close> with \<open>n < 0\<close> or \<open>n \<ge> 365\<close>,
  \<open>prob_rain_more_than_n p n\<close> returns \<open>0.0\<close>, as a value and not as an error.
\<close>

theorem prob_rain_more_than_n_boundary:
  "n < 0 \<or> n \<ge> 365 \<Longrightarrow> prob_rain_more_than_n p n = Inr 0"
  by (simp add: prob_rain_more_than_n_def DAYSPERYEAR_def)

theorem prob_rain_more_than_n_boundary_witness:
  "((400::int) < 0 \<or> (400::int) \<ge> 365) \<and>
   prob_rain_more_than_n (replicate 365 (1 / 2)) 400 = Inr 0"
  using prob_rain_more_than_n_boundary [of 400 "replicate 365 (1 / 2)"] by simp

text \<open>
  C4, as the spec states it: \<open>tail_probability(p, -1)\<close> is \<open>1.0\<close>. The guard
  \<open>n < 0\<close> of \<open>prob_rain_more_than_n\<close> returns \<open>0.0\<close> for it.
\<close>

theorem tail_probability_minus_one_counterexample:
  "prob_rain_more_than_n (replicate 365 (1 / 2)) (- 1) \<noteq> Inr 1"
  by (simp add: prob_rain_more_than_n_def)

text \<open>
  C4, amended: for every \<open>p\<close>, \<open>prob_rain_more_than_n p (-1)\<close> returns \<open>0.0\<close> and
  \<open>prob_rain_more_than_n p 365\<close> returns \<open>0.0\<close>.
\<close>

theorem prob_rain_more_than_n_at_minus_one_and_at_D:
  "prob_rain_more_than_n p (- 1) = Inr 0 \<and> prob_rain_more_than_n p 365 = Inr 0"
  by (simp add: prob_rain_more_than_n_def DAYSPERYEAR_def)

subsection \<open>The read of \<open>p[DAYSPERYEAR]\<close>\<close>

text \<open>
  The loop of \<open>prob_mass_func\<close> runs \<open>i\<close> from 1 to 365 and reads \<open>p[i]\<close>: it never
  reads \<open>p[0]\<close>, and its last round reads \<open>p[365]\<close>, one cell past a vector of 365
  probabilities.

  C1. For \<open>p = [1, 0, ..., 0]\<close> (rain on the first day is certain) and \<open>n = 0\<close>, the
  probability of more than 0 rainy days is 1. The function reads \<open>p[365]\<close>; and
  whatever number \<open>x\<close> the cell after the vector holds, if it can be read, the function
  returns \<open>x\<close>.
\<close>

theorem prob_rain_more_than_n_first_day_certain:
  "prob_rain_more_than_n (1 # replicate 364 0) 0 = Inl (P_index 365) \<and>
   prob_rain_more_than_n ((1 # replicate 364 0) @ [x]) 0 = Inr x"
proof
  show "prob_rain_more_than_n (1 # replicate 364 0) 0 = Inl (P_index 365)"
    using prob_rain_past_p [of "1 # replicate 364 0" 0] by (simp add: DAYSPERYEAR_def)
  have "prob_rain_more_than_n ((1 # replicate 364 0) @ [x]) 0 =
      Inr (\<Sum>k = nat 0 + 1..<366. exactly_k (take 365 (tl ((1 # replicate 364 0) @ [x]))) k)"
    by (rule prob_rain_more_than_n_value) (simp_all add: DAYSPERYEAR_def)
  also have "take 365 (tl ((1 # replicate 364 0) @ [x])) = replicate 364 0 @ [x]"
    by simp
  also have "(\<Sum>k = nat 0 + 1..<366. exactly_k (replicate 364 0 @ [x]) k) =
      (\<Sum>k = (1::nat)..<366. if k = 1 then x else 0)"
    by (intro sum.cong) (simp_all add: exactly_k_zeros_then)
  also have "\<dots> = x" by (simp add: sum.delta')
  finally show "prob_rain_more_than_n ((1 # replicate 364 0) @ [x]) 0 = Inr x" .
qed

text \<open>
  C2. For every vector \<open>p\<close> of length 365 and every \<open>n\<close> with \<open>0 \<le> n < 365\<close>, the
  evaluation of \<open>prob_rain_more_than_n p n\<close> ends in the read of \<open>p[365]\<close>: all
  accesses of \<open>pmf\<close> are in range, the last read of \<open>p\<close> is not.
\<close>

theorem prob_rain_more_than_n_reads_past_p:
  "length p = 365 \<Longrightarrow> 0 \<le> n \<Longrightarrow> n < 365 \<Longrightarrow> prob_rain_more_than_n p n = Inl (P_index 365)"
  using prob_rain_past_p [of p n] by (simp add: DAYSPERYEAR_def)

theorem prob_rain_more_than_n_reads_past_p_witness:
  "length (replicate 365 (1 / 2 :: real)) = 365 \<and> (0::int) \<le> 188 \<and> (188::int) < 365 \<and>
   prob_rain_more_than_n (replicate 365 (1 / 2)) 188 = Inl (P_index 365)"
  using prob_rain_more_than_n_reads_past_p [of "replicate 365 (1 / 2)" 188] by simp

text \<open>
  C5. For every vector \<open>p\<close> of length 365: after each of the trials 1 to \<open>d\<close>, for every
  \<open>d \<le> 364\<close>, has been folded in, the cells of \<open>pmf\<close> add up to 1; the fold of
  trial 365 reads \<open>p[365]\<close>, so \<open>prob_mass_func\<close> returns no array.
\<close>

theorem prob_mass_func_sum_until_last_trial:
  assumes "length p = 365"
  shows "(\<forall>d. 0 \<le> d \<and> d < 365 \<longrightarrow>
            (\<exists>pmf. pmf_loop d p (fresh_pmf[0 := 1]) 1 = Inr pmf \<and> sum_list pmf = 1)) \<and>
         prob_mass_func p fresh_pmf = Inl (P_index 365)"
proof (intro conjI allI impI)
  fix d :: int assume d: "0 \<le> d \<and> d < 365"
  have "\<exists>pmf'. pmf_loop d p (fresh_pmf[0 := 1]) 1 = Inr pmf' \<and>
          length pmf' = length (fresh_pmf[0 := 1]) \<and> sum_list pmf' = 1"
    using d assms
    by (intro pmf_loop_total) (simp_all add: fresh_pmf_def DAYSPERYEAR_def)
  then show "\<exists>pmf. pmf_loop d p (fresh_pmf[0 := 1]) 1 = Inr pmf \<and> sum_list pmf = 1"
    by blast
next
  show "prob_mass_func p fresh_pmf = Inl (P_index 365)"
    using prob_mass_func_past_p [of p] assms by (simp add: DAYSPERYEAR_def)
qed

theorem prob_mass_func_sum_until_last_trial_witness:
  "(\<exists>pmf. pmf_loop 364 (replicate 365 (1 / 2)) (fresh_pmf[0 := 1]) 1 = Inr pmf \<and>
      sum_list pmf = 1) \<and>
   prob_mass_func (replicate 365 (1 / 2)) fresh_pmf = Inl (P_index 365)"
  using prob_mass_func_sum_until_last_trial [of "replicate 365 (1 / 2)"] by simp

text \<open>
  A vector with a cell at index 365 makes the function return a value.
\<close>

lemma prob_rain_more_than_n_returns:
  assumes "DAYSPERYEAR < int (length p)"
  shows "\<exists>r. prob_rain_more_than_n p n = Inr r"
proof (cases "n < 0 \<or> n \<ge> DAYSPERYEAR")
  case True
  then show ?thesis by (simp add: prob_rain_more_than_n_def)
next
  case False
  let ?pmf0 = "fresh_pmf[0 := 1]"
  have l0: "int (length ?pmf0) = DAYSPERYEAR + 1"
    by (simp add: fresh_pmf_def DAYSPERYEAR_def)
  obtain pmf where r: "pmf_loop DAYSPERYEAR p ?pmf0 1 = Inr pmf"
    and l: "length pmf = length ?pmf0"
    using pmf_loop_sum [OF refl, of 1 DAYSPERYEAR p ?pmf0] assms l0
    by (auto simp: DAYSPERYEAR_def)
  have m: "prob_mass_func p fresh_pmf = Inr pmf"
    using r by (simp add: prob_mass_func_def wr_pmf_def fresh_pmf_def DAYSPERYEAR_def)
  have "\<exists>r. sum_loop pmf (n + 1) 0 = Inr r"
    using False l l0 by (intro sum_loop_ok [OF refl]) simp_all
  with False m show ?thesis
    by (simp add: prob_rain_more_than_n_def init_loop_fresh)
qed

text \<open>
  The loop never reads \<open>p[0]\<close>: two vectors of the same length that agree at every
  index from 1 on are treated alike, whether the evaluation ends in the error of the
  read of \<open>p[365]\<close> or in a value.
\<close>

lemma prob_rain_more_than_n_agree:
  assumes "length p = length q" "\<forall>k. 1 \<le> k \<and> k < length p \<longrightarrow> p ! k = q ! k"
  shows "prob_rain_more_than_n p n = prob_rain_more_than_n q n"
proof -
  have "\<forall>k. 1 \<le> k \<and> k \<le> DAYSPERYEAR \<longrightarrow> rd_p p k = rd_p q k"
  proof (intro allI impI)
    fix k :: int assume k: "1 \<le> k \<and> k \<le> DAYSPERYEAR"
    show "rd_p p k = rd_p q k"
    proof (cases "k < int (length p)")
      case True
      with k have "1 \<le> nat k \<and> nat k < length p" by linarith
      with assms(2) have "p ! nat k = q ! nat k" by blast
      with assms(1) show ?thesis by (simp add: rd_p_def)
    next
      case False
      with assms(1) show ?thesis by (simp add: rd_p_def)
    qed
  qed
  then have "\<And>pmf. pmf_loop DAYSPERYEAR p pmf 1 = pmf_loop DAYSPERYEAR q pmf 1"
    by (intro pmf_loop_agree [OF refl]) simp
  then have "\<And>pmf. prob_mass_func p pmf = prob_mass_func q pmf"
    by (simp add: prob_mass_func_def)
  then show ?thesis
    by (simp add: prob_rain_more_than_n_def)
qed



section \<open>Properties of \<open>most_freq_words.c\<close>\<close>

subsection \<open>Tokenization\<close>

lemma bnd_assoc: "bnd (bnd m f) g = bnd m (\<lambda>x. bnd (f x) g)"
  by (cases m) simp_all

lemma bnd_return: "bnd m (\<lambda>x. Inr x) = m"
  by (cases m) simp_all

lemma read_loop_calls:
  "bnd (read_loop s T buf)
     (\<lambda>(T', buf'). if length buf' > 0 then add_word T' buf' else Inr T') =
   add_words T (word_calls_from buf s)"
  by (induction s arbitrary: T buf) (simp_all add: bnd_assoc bnd_return)

lemma count_words_calls: "count_words s = add_words empty_table (word_calls s)"
  using read_loop_calls [of s empty_table "[]"]
  by (simp add: count_words_def word_calls_def)

lemma word_calls_from_spec:
  "word_calls_from (take (WORD_BUFFER_SIZE - 1) cur) s =
   map (take (WORD_BUFFER_SIZE - 1)) (spec_tokenize cur s)"
proof (induction s arbitrary: cur)
  case Nil
  show ?case by (simp add: WORD_BUFFER_SIZE_def)
next
  case (Cons c cs)
  have a: "take (WORD_BUFFER_SIZE - 1) (cur @ [tolower c]) =
       (if length cur < WORD_BUFFER_SIZE - 1 then take (WORD_BUFFER_SIZE - 1) cur @ [tolower c]
        else take (WORD_BUFFER_SIZE - 1) cur)"
    by simp
  have b: "length (take (WORD_BUFFER_SIZE - 1) cur) < WORD_BUFFER_SIZE - 1 \<longleftrightarrow>
        length cur < WORD_BUFFER_SIZE - 1"
    by auto
  have e: "take (WORD_BUFFER_SIZE - 1) cur = [] \<longleftrightarrow> cur = []"
    by (simp add: WORD_BUFFER_SIZE_def)
  have n: "word_calls_from [] cs = map (take (WORD_BUFFER_SIZE - 1)) (spec_tokenize [] cs)"
    using Cons.IH [of "[]"] by simp
  show ?case
    using Cons.IH [of "cur @ [tolower c]"] a b e n
    by (auto simp del: take_append)
qed

lemma word_calls_spec: "word_calls s = map (take (WORD_BUFFER_SIZE - 1)) (spec_tokens s)"
  using word_calls_from_spec [of "[]" s] by (simp add: word_calls_def spec_tokens_def)

lemma spec_tokenize_run:
  "cur \<noteq> [] \<or> r = [] \<or> isalpha (hd r) \<Longrightarrow> \<forall>x \<in> set r. isalpha x \<or> x = CHR 0x27 \<Longrightarrow>
   spec_tokenize cur (r @ s) = spec_tokenize (cur @ map tolower r) s"
proof (induction r arbitrary: cur)
  case Nil
  then show ?case by simp
next
  case (Cons x r)
  then have "isalpha x \<or> (x = CHR 0x27 \<and> cur \<noteq> [])" by auto
  moreover have "spec_tokenize (cur @ [tolower x]) (r @ s) =
      spec_tokenize ((cur @ [tolower x]) @ map tolower r) s"
    using Cons.prems by (intro Cons.IH) simp_all
  ultimately show ?case by simp
qed

lemma spec_tokenize_sep:
  "\<not> isalpha c \<Longrightarrow> c \<noteq> CHR 0x27 \<Longrightarrow>
   spec_tokenize cur (c # s) = (if cur \<noteq> [] then [cur] else []) @ spec_tokenize [] s"
  by simp

lemma spec_tokenize_prefix:
  "pre \<noteq> [] \<Longrightarrow> \<not> isalpha (last pre) \<Longrightarrow> last pre \<noteq> CHR 0x27 \<Longrightarrow>
   spec_tokenize cur (pre @ s) = spec_tokenize cur pre @ spec_tokenize [] s"
proof (induction pre arbitrary: cur)
  case Nil
  then show ?case by simp
next
  case (Cons x pre)
  show ?case
  proof (cases "pre = []")
    case True
    with Cons.prems show ?thesis by simp
  next
    case False
    with Cons.prems have "\<And>cur. spec_tokenize cur (pre @ s) = spec_tokenize cur pre @ spec_tokenize [] s"
      by (intro Cons.IH) simp_all
    then show ?thesis by simp
  qed
qed

lemma spec_tokens_run:
  assumes "isalpha (hd r)" "r \<noteq> []" "\<forall>x \<in> set r. isalpha x \<or> x = CHR 0x27"
    and "pre = [] \<or> (\<not> isalpha (last pre) \<and> last pre \<noteq> CHR 0x27)"
    and "post = [] \<or> (\<not> isalpha (hd post) \<and> hd post \<noteq> CHR 0x27)"
  shows "spec_tokens (pre @ r @ post) = spec_tokens pre @ map tolower r # spec_tokens post"
proof -
  have a: "spec_tokenize [] (r @ post) = map tolower r # spec_tokenize [] post"
  proof (cases post)
    case Nil
    with spec_tokenize_run [of "[]" r "[]"] assms(1-3) show ?thesis by simp
  next
    case (Cons c post')
    with assms(5) have "\<not> isalpha c" "c \<noteq> CHR 0x27" by simp_all
    with spec_tokenize_run [of "[]" r post] assms(1-3) Cons show ?thesis by simp
  qed
  show ?thesis
  proof (cases "pre = []")
    case True
    with a show ?thesis by (simp add: spec_tokens_def)
  next
    case False
    with assms(4) spec_tokenize_prefix [of pre "[]" "r @ post"] a show ?thesis
      by (simp add: spec_tokens_def)
  qed
qed

lemma tolower_apostrophe: "tolower (CHR 0x27) = CHR 0x27"
  by (simp add: tolower_def)

lemma spec_tokens_example: "spec_tokens ''Rain, rain, go away! Don't come again.'' 
   = [''rain'', ''rain'', ''go'', ''away'', ''don't'', ''come'', ''again'']"
  by code_simp

lemma word_calls_run:
  assumes "isalpha (hd r)" "r \<noteq> []" "\<forall>x \<in> set r. isalpha x \<or> x = CHR 0x27"
    and "pre = [] \<or> (\<not> isalpha (last pre) \<and> last pre \<noteq> CHR 0x27)"
    and "post = [] \<or> (\<not> isalpha (hd post) \<and> hd post \<noteq> CHR 0x27)"
  shows "word_calls (pre @ r @ post) =
         word_calls pre @ take (WORD_BUFFER_SIZE - 1) (map tolower r) # word_calls post"
  by (simp add: word_calls_spec spec_tokens_run [OF assms])

lemma isalpha_a: "isalpha (CHR ''a'')" "isalpha (CHR ''A'')" "\<not> isalpha (CHR '' '')"
  by code_simp+

lemma tolower_a: "tolower (CHR ''A'') = CHR ''a''" "tolower (CHR ''a'') = CHR ''a''"
  by code_simp+

subsection \<open>The hash table\<close>

lemma djb2_hash_less: "djb2_hash w < HASH_TABLE_SIZE"
  by (simp add: djb2_hash_def HASH_TABLE_SIZE_def)

lemma cnt_nodes_append: "cnt_nodes (xs @ ys) w = cnt_nodes xs w + cnt_nodes ys w"
  by (simp add: cnt_nodes_def)

lemma cnt_nodes_Cons:
  "cnt_nodes (x # xs) w = (if word x = w then count x else 0) + cnt_nodes xs w"
  by (simp add: cnt_nodes_def)

lemma cnt_nodes_absent: "w \<notin> word ` set xs \<Longrightarrow> cnt_nodes xs w = 0"
  by (induction xs) (auto simp: cnt_nodes_Cons cnt_nodes_def)

lemma cnt_nodes_distinct:
  "distinct (map word xs) \<Longrightarrow> x \<in> set xs \<Longrightarrow> cnt_nodes xs (word x) = count x"
proof (induction xs)
  case Nil
  then show ?case by simp
next
  case (Cons y ys)
  show ?case
  proof (cases "x = y")
    case True
    from Cons.prems(1) have "word y \<notin> word ` set ys" by simp
    then have "cnt_nodes ys (word y) = 0" by (rule cnt_nodes_absent)
    with True show ?thesis by (simp add: cnt_nodes_Cons)
  next
    case False
    with Cons.prems have x: "x \<in> set ys" and "word y \<noteq> word x" by auto
    with Cons.IH Cons.prems(1) show ?thesis by (simp add: cnt_nodes_Cons)
  qed
qed

lemma walk_chain_None: "walk_chain c w = Inr None \<longleftrightarrow> w \<notin> word ` set c"
proof (induction c)
  case Nil
  show ?case by simp
next
  case (Cons node rest)
  then show ?case by (cases "walk_chain rest w") auto
qed

lemma walk_chain_Some:
  "walk_chain c w = Inr (Some c') \<Longrightarrow>
     map word c' = map word c \<and>
     (\<forall>v. cnt_nodes c' v = cnt_nodes c v + (if v = w then 1 else 0)) \<and>
     ((\<forall>node \<in> set c. 1 \<le> count node \<and> count node \<le> INT_MAX) \<longrightarrow>
      (\<forall>node \<in> set c'. 1 \<le> count node \<and> count node \<le> INT_MAX))"
proof (induction c arbitrary: c')
  case Nil
  then show ?case by simp
next
  case (Cons node rest)
  show ?case
  proof (cases "word node = w")
    case True
    with Cons.prems have c': "c' = node\<lparr>count := count node + 1\<rparr> # rest"
      and m: "count node \<noteq> INT_MAX"
      by (auto split: if_splits)
    have 1: "map word c' = map word (node # rest)" by (simp add: c')
    have 2: "\<forall>v. cnt_nodes c' v = cnt_nodes (node # rest) v + (if v = w then 1 else 0)"
      using True by (simp add: c' cnt_nodes_Cons)
    have 3: "(\<forall>n \<in> set (node # rest). 1 \<le> count n \<and> count n \<le> INT_MAX) \<longrightarrow>
      (\<forall>n \<in> set c'. 1 \<le> count n \<and> count n \<le> INT_MAX)"
      using m by (simp add: c')
    show ?thesis by (intro conjI) (rule 1, rule 2, rule 3)
  next
    case False
    with Cons.prems obtain rest' where r: "walk_chain rest w = Inr (Some rest')"
      and c': "c' = node # rest'"
      by (cases "walk_chain rest w") auto
    note ih = Cons.IH [OF r]
    note i1 = ih [THEN conjunct1]
    note i2 = ih [THEN conjunct2, THEN conjunct1]
    note i3 = ih [THEN conjunct2, THEN conjunct2]
    have 1: "map word c' = map word (node # rest)" by (simp add: c' i1)
    have 2: "\<forall>v. cnt_nodes c' v = cnt_nodes (node # rest) v + (if v = w then 1 else 0)"
      by (simp add: c' cnt_nodes_Cons i2)
    have 3: "(\<forall>n \<in> set (node # rest). 1 \<le> count n \<and> count n \<le> INT_MAX) \<longrightarrow>
      (\<forall>n \<in> set c'. 1 \<le> count n \<and> count n \<le> INT_MAX)"
    proof (intro impI ballI)
      fix n
      assume a: "\<forall>n \<in> set (node # rest). 1 \<le> count n \<and> count n \<le> INT_MAX"
        and n: "n \<in> set c'"
      from a have an: "1 \<le> count node \<and> count node \<le> INT_MAX"
        and ar: "\<forall>n \<in> set rest. 1 \<le> count n \<and> count n \<le> INT_MAX"
        by simp_all
      from i3 ar have r: "\<forall>n \<in> set rest'. 1 \<le> count n \<and> count n \<le> INT_MAX"
        by (rule mp)
      from n have "n = node \<or> n \<in> set rest'" by (simp add: c')
      then show "1 \<le> count n \<and> count n \<le> INT_MAX" using an r by blast
    qed
    show ?thesis by (intro conjI) (rule 1, rule 2, rule 3)
  qed
qed

lemma walk_chain_error:
  "walk_chain c w = Inl e \<Longrightarrow>
   e = CountOverflow \<and> (\<exists>node \<in> set c. word node = w \<and> count node = INT_MAX)"
proof (induction c)
  case Nil
  then show ?case by simp
next
  case (Cons node rest)
  show ?case
  proof (cases "word node = w")
    case True
    with Cons.prems show ?thesis by (auto split: if_splits)
  next
    case False
    with Cons.prems have "walk_chain rest w = Inl e"
      by (cases "walk_chain rest w") auto
    with Cons.IH show ?thesis by auto
  qed
qed

lemma walk_chain_overflow:
  "\<exists>node \<in> set c. word node = w \<Longrightarrow>
   \<forall>node \<in> set c. word node = w \<longrightarrow> count node = INT_MAX \<Longrightarrow>
   walk_chain c w = Inl CountOverflow"
proof (induction c)
  case Nil
  then show ?case by simp
next
  case (Cons node rest)
  show ?case
  proof (cases "word node = w")
    case True
    with Cons.prems show ?thesis by simp
  next
    case False
    with Cons.prems have "walk_chain rest w = Inl CountOverflow"
      by (intro Cons.IH) auto
    with False show ?thesis by simp
  qed
qed

lemma concat_split:
  "i < length T \<Longrightarrow> concat T = concat (take i T) @ T ! i @ concat (drop (Suc i) T)"
  by (metis concat_append concat.simps(2) id_take_nth_drop)

lemma concat_update:
  "i < length T \<Longrightarrow> concat (T[i := c]) = concat (take i T) @ c @ concat (drop (Suc i) T)"
  by (simp add: upd_conv_take_nth_drop)

lemma add_word_cases:
  assumes "add_word T w = Inr T'"
  shows "(walk_chain (T ! djb2_hash w) w = Inr None \<and>
          T' = T[djb2_hash w := create_WordFreqNode w # T ! djb2_hash w]) \<or>
         (\<exists>c'. walk_chain (T ! djb2_hash w) w = Inr (Some c') \<and> T' = T[djb2_hash w := c'])"
proof (cases "walk_chain (T ! djb2_hash w) w")
  case (Inl e)
  with assms show ?thesis by (simp add: add_word_def Let_def)
next
  case (Inr found)
  with assms show ?thesis by (cases found) (auto simp: add_word_def Let_def)
qed

lemma add_word_error: "add_word T w = Inl e \<Longrightarrow> e = CountOverflow"
proof (cases "walk_chain (T ! djb2_hash w) w")
  case (Inl e')
  assume "add_word T w = Inl e"
  with Inl walk_chain_error [OF Inl] show ?thesis by (simp add: add_word_def Let_def)
next
  case (Inr found)
  assume "add_word T w = Inl e"
  with Inr show ?thesis by (cases found) (simp_all add: add_word_def Let_def)
qed

lemma add_word_cnt:
  assumes "length T = HASH_TABLE_SIZE" "add_word T w = Inr T'"
  shows "cnt_nodes (concat T') v = cnt_nodes (concat T) v + (if v = w then 1 else 0)"
proof -
  let ?h = "djb2_hash w"
  have h: "?h < length T" using assms(1) djb2_hash_less by simp
  from add_word_cases [OF assms(2)] show ?thesis
  proof (elim disjE conjE exE)
    assume T': "T' = T[?h := create_WordFreqNode w # T ! ?h]"
    show ?thesis
      unfolding T' concat_update [OF h]
      by (subst concat_split [OF h])
         (simp add: cnt_nodes_append cnt_nodes_Cons create_WordFreqNode_def)
  next
    fix c' assume s: "walk_chain (T ! ?h) w = Inr (Some c')" and T': "T' = T[?h := c']"
    from walk_chain_Some [OF s]
    have c: "cnt_nodes c' v = cnt_nodes (T ! ?h) v + (if v = w then 1 else 0)" by blast
    show ?thesis
      unfolding T' concat_update [OF h]
      by (subst concat_split [OF h]) (simp add: cnt_nodes_append c)
  qed
qed

lemma add_word_length: "add_word T w = Inr T' \<Longrightarrow> length T' = length T"
  using add_word_cases [of T w T'] by auto

lemma table_inv_words:
  assumes "table_inv T" "node \<in> set (concat T)"
  shows "node \<in> set (T ! djb2_hash (word node))"
proof -
  from assms(2) obtain c where c: "c \<in> set T" "node \<in> set c" by auto
  then obtain i where i: "i < length T" "T ! i = c" by (auto simp: in_set_conv_nth)
  with assms(1) c have "djb2_hash (word node) = i" by (auto simp: table_inv_def)
  with i c show ?thesis by simp
qed

lemma add_word_inv:
  assumes "table_inv T" "add_word T w = Inr T'"
  shows "table_inv T'"
proof -
  let ?h = "djb2_hash w"
  have len: "length T = HASH_TABLE_SIZE" using assms(1) by (simp add: table_inv_def)
  have h: "?h < length T" using len djb2_hash_less by simp
  have place: "\<forall>i < HASH_TABLE_SIZE. \<forall>node \<in> set (T ! i). djb2_hash (word node) = i"
    using assms(1) by (simp add: table_inv_def)
  have dist: "distinct (map word (concat T))" using assms(1) by (simp add: table_inv_def)
  have pos: "\<forall>node \<in> set (concat T). 1 \<le> count node \<and> count node \<le> INT_MAX"
    using assms(1) by (simp add: table_inv_def)
  have chain_sub: "set (T ! ?h) \<subseteq> set (concat T)"
    using nth_mem [OF h] by auto
  from add_word_cases [OF assms(2)] show ?thesis
  proof (elim disjE conjE exE)
    let ?new = "create_WordFreqNode w"
    assume None: "walk_chain (T ! ?h) w = Inr None" and T': "T' = T[?h := ?new # T ! ?h]"
    have fresh: "w \<notin> word ` set (concat T)"
    proof
      assume "w \<in> word ` set (concat T)"
      then obtain node where n: "node \<in> set (concat T)" "word node = w" by auto
      from table_inv_words [OF assms(1) n(1)] n(2) have "node \<in> set (T ! ?h)" by simp
      with n(2) None show False by (auto simp: walk_chain_None)
    qed
    have "distinct (map word (concat (T[?h := ?new # T ! ?h])))"
      using dist fresh concat_split [OF h] concat_update [OF h, of "?new # T ! ?h"]
      by (auto simp: create_WordFreqNode_def)
    moreover have "\<forall>node \<in> set (concat (T[?h := ?new # T ! ?h])).
        1 \<le> count node \<and> count node \<le> INT_MAX"
      using pos concat_split [OF h] concat_update [OF h, of "?new # T ! ?h"]
      by (auto simp: create_WordFreqNode_def INT_MAX_def)
    moreover have "\<forall>i < HASH_TABLE_SIZE. \<forall>node \<in> set (T[?h := ?new # T ! ?h] ! i).
        djb2_hash (word node) = i"
      using place h len by (auto simp: nth_list_update create_WordFreqNode_def)
    ultimately show ?thesis using len by (simp add: table_inv_def T')
  next
    fix c' assume Some: "walk_chain (T ! ?h) w = Inr (Some c')" and T': "T' = T[?h := c']"
    from walk_chain_Some [OF Some]
    have w: "map word c' = map word (T ! ?h)"
      and p: "(\<forall>node \<in> set (T ! ?h). 1 \<le> count node \<and> count node \<le> INT_MAX) \<longrightarrow>
              (\<forall>node \<in> set c'. 1 \<le> count node \<and> count node \<le> INT_MAX)"
      by blast+
    have "map word (concat (T[?h := c'])) = map word (concat T)"
      using w concat_split [OF h] concat_update [OF h, of c'] by simp
    then have "distinct (map word (concat (T[?h := c'])))" using dist by simp
    moreover have "\<forall>node \<in> set (concat (T[?h := c'])).
        1 \<le> count node \<and> count node \<le> INT_MAX"
    proof -
      have "\<forall>node \<in> set c'. 1 \<le> count node \<and> count node \<le> INT_MAX"
        using p pos chain_sub by blast
      moreover have "set (concat (T[?h := c'])) \<subseteq> set (concat T) \<union> set c'"
        using concat_split [OF h] concat_update [OF h, of c'] by auto
      ultimately show ?thesis using pos by blast
    qed
    moreover have "\<forall>i < HASH_TABLE_SIZE. \<forall>node \<in> set (T[?h := c'] ! i).
        djb2_hash (word node) = i"
    proof (intro allI impI ballI)
      fix i node assume i: "i < HASH_TABLE_SIZE" and n: "node \<in> set (T[?h := c'] ! i)"
      show "djb2_hash (word node) = i"
      proof (cases "i = ?h")
        case True
        with n h have "word node \<in> set (map word c')" by simp
        with w obtain node0 where n0: "node0 \<in> set (T ! ?h)" "word node0 = word node" by auto
        from place i True n0(1) have "djb2_hash (word node0) = i" by blast
        with n0(2) show ?thesis by simp
      next
        case False
        with n place i show ?thesis by simp
      qed
    qed
    ultimately show ?thesis using len by (simp add: table_inv_def T')
  qed
qed

lemma table_inv_cnt_le:
  assumes "table_inv T"
  shows "0 \<le> cnt_nodes (concat T) w \<and> cnt_nodes (concat T) w \<le> INT_MAX"
proof (cases "w \<in> word ` set (concat T)")
  case False
  then show ?thesis by (simp add: cnt_nodes_absent INT_MAX_def)
next
  case True
  then obtain node where n: "node \<in> set (concat T)" "word node = w" by auto
  have "distinct (map word (concat T))" using assms by (simp add: table_inv_def)
  from cnt_nodes_distinct [OF this n(1)] n(2) have "cnt_nodes (concat T) w = count node" by simp
  moreover have "1 \<le> count node \<and> count node \<le> INT_MAX"
    using assms n(1) by (auto simp: table_inv_def)
  ultimately show ?thesis by simp
qed

lemma add_word_ok:
  assumes "table_inv T" "cnt_nodes (concat T) w < INT_MAX"
  shows "\<exists>T'. add_word T w = Inr T'"
proof (cases "add_word T w")
  case (Inr T')
  then show ?thesis by blast
next
  case (Inl e)
  let ?h = "djb2_hash w"
  have h: "?h < length T" using assms(1) djb2_hash_less by (simp add: table_inv_def)
  from Inl obtain e' where w: "walk_chain (T ! ?h) w = Inl e'"
    by (cases "walk_chain (T ! ?h) w") (auto simp: add_word_def Let_def split: option.splits)
  from walk_chain_error [OF w] obtain node where n: "node \<in> set (T ! ?h)" "word node = w"
    "count node = INT_MAX" by blast
  have c: "node \<in> set (concat T)" using n(1) nth_mem [OF h] by auto
  have "distinct (map word (concat T))" using assms(1) by (simp add: table_inv_def)
  from cnt_nodes_distinct [OF this c] n(2,3) assms(2) show ?thesis by simp
qed

lemma add_word_overflow:
  assumes "table_inv T" "cnt_nodes (concat T) w = INT_MAX"
  shows "add_word T w = Inl CountOverflow"
proof -
  let ?h = "djb2_hash w"
  have h: "?h < length T" using assms(1) djb2_hash_less by (simp add: table_inv_def)
  have d: "distinct (map word (concat T))" using assms(1) by (simp add: table_inv_def)
  have "cnt_nodes (concat T) w \<noteq> 0" using assms(2) by (simp add: INT_MAX_def)
  then have "w \<in> word ` set (concat T)" using cnt_nodes_absent by blast
  then obtain node where n: "node \<in> set (concat T)" "word node = w" by auto
  from table_inv_words [OF assms(1) n(1)] n(2) have m: "node \<in> set (T ! ?h)" by simp
  have "\<forall>node' \<in> set (T ! ?h). word node' = w \<longrightarrow> count node' = INT_MAX"
  proof (intro ballI impI)
    fix node' assume a: "node' \<in> set (T ! ?h)" "word node' = w"
    then have "node' \<in> set (concat T)" using nth_mem [OF h] by auto
    from cnt_nodes_distinct [OF d this] a(2) assms(2) show "count node' = INT_MAX" by simp
  qed
  with m n(2) have "walk_chain (T ! ?h) w = Inl CountOverflow"
    by (intro walk_chain_overflow) auto
  then show ?thesis by (simp add: add_word_def Let_def)
qed

lemma empty_table_inv: "table_inv empty_table"
  by (simp add: table_inv_def empty_table_def)

lemma add_words_ok:
  "table_inv T \<Longrightarrow> \<forall>v. cnt_nodes (concat T) v + int (count_list ws v) \<le> INT_MAX \<Longrightarrow>
   \<exists>T'. add_words T ws = Inr T' \<and> table_inv T' \<and>
     (\<forall>v. cnt_nodes (concat T') v = cnt_nodes (concat T) v + int (count_list ws v))"
proof (induction ws arbitrary: T)
  case Nil
  then show ?case by simp
next
  case (Cons w ws)
  from Cons.prems(2) have "cnt_nodes (concat T) w + int (count_list (w # ws) w) \<le> INT_MAX"
    by blast
  then have "cnt_nodes (concat T) w < INT_MAX" by simp
  from add_word_ok [OF Cons.prems(1) this] obtain T1 where T1: "add_word T w = Inr T1" by blast
  have i1: "table_inv T1" by (rule add_word_inv [OF Cons.prems(1) T1])
  have len: "length T = HASH_TABLE_SIZE" using Cons.prems(1) by (simp add: table_inv_def)
  have c1: "\<And>v. cnt_nodes (concat T1) v = cnt_nodes (concat T) v + (if v = w then 1 else 0)"
    by (rule add_word_cnt [OF len T1])
  have b1: "\<forall>v. cnt_nodes (concat T1) v + int (count_list ws v) \<le> INT_MAX"
  proof
    fix v
    from Cons.prems(2) have "cnt_nodes (concat T) v + int (count_list (w # ws) v) \<le> INT_MAX"
      by blast
    then show "cnt_nodes (concat T1) v + int (count_list ws v) \<le> INT_MAX"
      by (auto simp: c1 split: if_splits)
  qed
  from Cons.IH [OF i1 b1] obtain T' where T': "add_words T1 ws = Inr T'" "table_inv T'"
    "\<forall>v. cnt_nodes (concat T') v = cnt_nodes (concat T1) v + int (count_list ws v)"
    by blast
  have "\<forall>v. cnt_nodes (concat T') v = cnt_nodes (concat T) v + int (count_list (w # ws) v)"
    using T'(3) by (simp add: c1)
  with T1 T'(1,2) show ?case by simp
qed

lemma add_words_overflow:
  "table_inv T \<Longrightarrow> \<exists>v. INT_MAX < cnt_nodes (concat T) v + int (count_list ws v) \<Longrightarrow>
   add_words T ws = Inl CountOverflow"
proof (induction ws arbitrary: T)
  case Nil
  then show ?case using table_inv_cnt_le [OF Nil.prems(1)] by (auto simp: not_less [symmetric])
next
  case (Cons w ws)
  show ?case
  proof (cases "cnt_nodes (concat T) w = INT_MAX")
    case True
    from add_word_overflow [OF Cons.prems(1) True] show ?thesis by simp
  next
    case False
    with table_inv_cnt_le [OF Cons.prems(1), of w] have "cnt_nodes (concat T) w < INT_MAX"
      by simp
    from add_word_ok [OF Cons.prems(1) this] obtain T1 where T1: "add_word T w = Inr T1" by blast
    have i1: "table_inv T1" by (rule add_word_inv [OF Cons.prems(1) T1])
    have len: "length T = HASH_TABLE_SIZE" using Cons.prems(1) by (simp add: table_inv_def)
    have c1: "\<And>v. cnt_nodes (concat T1) v = cnt_nodes (concat T) v + (if v = w then 1 else 0)"
      by (rule add_word_cnt [OF len T1])
    from Cons.prems(2) obtain v where
      "INT_MAX < cnt_nodes (concat T) v + int (count_list (w # ws) v)" by blast
    then have "INT_MAX < cnt_nodes (concat T1) v + int (count_list ws v)"
      by (auto simp: c1 split: if_splits)
    then have "add_words T1 ws = Inl CountOverflow"
      using i1 by (intro Cons.IH) blast+
    with T1 show ?thesis by simp
  qed
qed

lemma add_words_error: "add_words T ws = Inl e \<Longrightarrow> e = CountOverflow"
proof (induction ws arbitrary: T)
  case Nil
  then show ?case by simp
next
  case (Cons w ws)
  show ?case
  proof (cases "add_word T w")
    case (Inl e')
    with Cons.prems add_word_error [OF Inl] show ?thesis by simp
  next
    case (Inr T1)
    with Cons.prems Cons.IH [of T1] show ?thesis by simp
  qed
qed

lemma table_nodes:
  assumes "table_inv T" "\<forall>v. cnt_nodes (concat T) v = int (count_list ws v)"
  shows "set (concat T) = (\<lambda>w. \<lparr>word = w, count = int (count_list ws w)\<rparr>) ` set ws"
proof (intro equalityI subsetI)
  fix node assume n: "node \<in> set (concat T)"
  have d: "distinct (map word (concat T))" using assms(1) by (simp add: table_inv_def)
  have c: "count node = int (count_list ws (word node))"
    using cnt_nodes_distinct [OF d n] assms(2) by simp
  have "1 \<le> count node" using assms(1) n by (auto simp: table_inv_def)
  with c have "count_list ws (word node) \<noteq> 0" by simp
  then have "word node \<in> set ws" by (metis count_list_0_iff)
  moreover have "node = \<lparr>word = word node, count = int (count_list ws (word node))\<rparr>"
    using c by simp
  ultimately show "node \<in> (\<lambda>w. \<lparr>word = w, count = int (count_list ws w)\<rparr>) ` set ws"
    by blast
next
  fix node assume "node \<in> (\<lambda>w. \<lparr>word = w, count = int (count_list ws w)\<rparr>) ` set ws"
  then obtain w where w: "w \<in> set ws" and node: "node = \<lparr>word = w, count = int (count_list ws w)\<rparr>"
    by blast
  have d: "distinct (map word (concat T))" using assms(1) by (simp add: table_inv_def)
  from w have "count_list ws w \<noteq> 0" by (simp add: count_list_0_iff)
  with assms(2) have "cnt_nodes (concat T) w \<noteq> 0" by simp
  then have "w \<in> word ` set (concat T)" using cnt_nodes_absent by blast
  then obtain node' where n': "node' \<in> set (concat T)" "word node' = w" by auto
  have "count node' = int (count_list ws w)"
    using cnt_nodes_distinct [OF d n'(1)] assms(2) n'(2) by simp
  with n'(2) node have "node' = node" by simp
  with n'(1) show "node \<in> set (concat T)" by simp
qed

lemma count_words_nodes:
  assumes "\<forall>v. int (count_list (word_calls s) v) \<le> INT_MAX"
  shows "\<exists>T. count_words s = Inr T \<and> table_inv T \<and>
     distinct (map word (concat T)) \<and>
     set (concat T) =
       (\<lambda>w. \<lparr>word = w, count = int (count_list (word_calls s) w)\<rparr>) ` set (word_calls s)"
proof -
  have e: "\<And>v. cnt_nodes (concat empty_table) v = 0"
    by (simp add: empty_table_def cnt_nodes_def)
  have "\<forall>v. cnt_nodes (concat empty_table) v + int (count_list (word_calls s) v) \<le> INT_MAX"
    using assms by (simp add: e)
  from add_words_ok [OF empty_table_inv this] obtain T where
    T: "add_words empty_table (word_calls s) = Inr T" and i: "table_inv T" and
    c: "\<forall>v. cnt_nodes (concat T) v =
            cnt_nodes (concat empty_table) v + int (count_list (word_calls s) v)"
    by blast
  from c have "\<forall>v. cnt_nodes (concat T) v = int (count_list (word_calls s) v)"
    by (simp add: e)
  from table_nodes [OF i this] have "set (concat T) =
       (\<lambda>w. \<lparr>word = w, count = int (count_list (word_calls s) w)\<rparr>) ` set (word_calls s)" .
  moreover have "distinct (map word (concat T))" using i by (simp add: table_inv_def)
  ultimately show ?thesis using T i by (simp add: count_words_calls)
qed

text \<open>
  With more than \<open>INT_MAX\<close> occurrences of one word, \<open>count++\<close> is executed on a count
  of \<open>INT_MAX\<close>; and this is the only way in which the counting fails.
\<close>

lemma count_words_overflow:
  assumes "INT_MAX < int (count_list (word_calls s) v)"
  shows "count_words s = Inl CountOverflow"
proof -
  have "cnt_nodes (concat empty_table) v = 0"
    by (simp add: empty_table_def cnt_nodes_def)
  with assms have
    "\<exists>v. INT_MAX < cnt_nodes (concat empty_table) v + int (count_list (word_calls s) v)"
    by (intro exI [of _ v]) simp
  from add_words_overflow [OF empty_table_inv this] show ?thesis
    by (simp add: count_words_calls)
qed

lemma count_words_error: "count_words s = Inl e \<Longrightarrow> e = CountOverflow"
  using add_words_error [of empty_table "word_calls s" e] by (simp add: count_words_calls)

lemma count_words_Inr:
  assumes "count_words s = Inr T"
  shows "table_inv T"
    and "distinct (map word (concat T))"
    and "set (concat T) =
       (\<lambda>w. \<lparr>word = w, count = int (count_list (word_calls s) w)\<rparr>) ` set (word_calls s)"
proof -
  have "\<forall>v. int (count_list (word_calls s) v) \<le> INT_MAX"
  proof (rule ccontr)
    assume "\<not> (\<forall>v. int (count_list (word_calls s) v) \<le> INT_MAX)"
    then obtain v where "INT_MAX < int (count_list (word_calls s) v)" by (auto simp: not_le)
    from count_words_overflow [OF this] assms show False by simp
  qed
  from count_words_nodes [OF this] assms
  show "table_inv T"
    and "distinct (map word (concat T))"
    and "set (concat T) =
       (\<lambda>w. \<lparr>word = w, count = int (count_list (word_calls s) w)\<rparr>) ` set (word_calls s)"
    by auto
qed


lemma count_list_replicate_same: "count_list (replicate n w) w = n"
  by (induction n) simp_all


lemma count_words_length:
  assumes "count_words s = Inr T"
  shows "length (concat T) = card (set (word_calls s))"
proof -
  let ?nodes = "concat T"
  let ?f = "\<lambda>w. \<lparr>word = w, count = int (count_list (word_calls s) w)\<rparr>"
  have d: "distinct (map word ?nodes)" and s: "set ?nodes = ?f ` set (word_calls s)"
    using count_words_Inr [OF assms] by blast+
  have "length ?nodes = length (map word ?nodes)" by simp
  also have "\<dots> = card (set (map word ?nodes))" using d by (rule distinct_card [symmetric])
  also have "set (map word ?nodes) = word ` ?f ` set (word_calls s)" using s by simp
  also have "\<dots> = set (word_calls s)" by (simp add: image_image)
  finally show ?thesis .
qed

subsection \<open>Words longer than the buffer\<close>






text \<open>The sentence of the spec's test, counted by the program.\<close>

lemma count_words_example:
  "\<exists>T. count_words ''Rain, rain, go away! Don't come again.'' = Inr T \<and>
     set (concat T) =
     {\<lparr>word = ''rain'', count = 2\<rparr>, \<lparr>word = ''go'', count = 1\<rparr>,
      \<lparr>word = ''away'', count = 1\<rparr>, \<lparr>word = ''don't'', count = 1\<rparr>,
      \<lparr>word = ''come'', count = 1\<rparr>, \<lparr>word = ''again'', count = 1\<rparr>}"
proof -
  have w: "word_calls ''Rain, rain, go away! Don't come again.'' =
      [''rain'', ''rain'', ''go'', ''away'', ''don't'', ''come'', ''again'']"
    by (simp add: word_calls_spec spec_tokens_example WORD_BUFFER_SIZE_def)
  have "\<forall>v. int (count_list (word_calls ''Rain, rain, go away! Don't come again.'') v) \<le> INT_MAX"
    unfolding w by (simp add: INT_MAX_def)
  from count_words_nodes [OF this] obtain T where "count_words ''Rain, rain, go away! Don't come again.'' = Inr T"
    and "set (concat T) =
      (\<lambda>v. \<lparr>word = v, count = int (count_list (word_calls ''Rain, rain, go away! Don't come again.'') v)\<rparr>) `
        set (word_calls ''Rain, rain, go away! Don't come again.'')"
    by blast
  then show ?thesis unfolding w by simp
qed

subsection \<open>The sorted result and \<open>main\<close>\<close>

text \<open>
  The counts of a table that the counting returns lie between 1 and \<open>INT_MAX\<close>, so the
  subtraction of \<open>compare_by_frequency\<close> stays in the range of \<open>int\<close>.
\<close>

lemma compare_by_frequency_range:
  assumes "count_words s = Inr T" "node_a \<in> set (concat T)" "node_b \<in> set (concat T)"
  shows "- INT_MAX < compare_by_frequency node_a node_b \<and>
         compare_by_frequency node_a node_b < INT_MAX"
proof -
  have i: "table_inv T" by (rule count_words_Inr(1) [OF assms(1)])
  have "1 \<le> count node_a \<and> count node_a \<le> INT_MAX" "1 \<le> count node_b \<and> count node_b \<le> INT_MAX"
    using i assms(2,3) unfolding table_inv_def by blast+
  then show ?thesis by (simp add: compare_by_frequency_def)
qed

lemma collect_chain_eq:
  "length wll \<le> HASH_TABLE_SIZE \<Longrightarrow>
   collect_chain c wll =
     (if length wll + length c \<le> HASH_TABLE_SIZE then Inr (wll @ c) else Inl WordListOverflow)"
  by (induction c arbitrary: wll) auto

lemma collect_table_eq:
  "length wll \<le> HASH_TABLE_SIZE \<Longrightarrow>
   collect_table T wll =
     (if length wll + length (concat T) \<le> HASH_TABLE_SIZE then Inr (wll @ concat T)
      else Inl WordListOverflow)"
proof (induction T arbitrary: wll)
  case Nil
  then show ?case by simp
next
  case (Cons c T)
  show ?case
  proof (cases "length wll + length c \<le> HASH_TABLE_SIZE")
    case True
    then show ?thesis
      using Cons.IH [of "wll @ c"] Cons.prems by (simp add: collect_chain_eq add.assoc)
  next
    case False
    then show ?thesis using Cons.prems by (simp add: collect_chain_eq)
  qed
qed

declare fill_loop.simps [simp del] print_loop.simps [simp del]

lemma fill_loop_nth:
  "m = nat (n - i) \<Longrightarrow> 0 \<le> i \<Longrightarrow> length result = nat n \<Longrightarrow>
   length (fill_loop wll c n result i) = nat n \<and>
   (\<forall>k < nat n. fill_loop wll c n result i ! k =
      (if i \<le> int k \<and> int k < c then Some (word (wll ! k)) else result ! k))"
proof (induction m arbitrary: i result)
  case 0
  then have "\<not> i < n" by simp
  then show ?case using 0 by (subst fill_loop.simps, subst fill_loop.simps) auto
next
  case (Suc m)
  then have i: "i < n" by simp
  show ?case
  proof (cases "i < c")
    case True
    let ?r = "result[nat i := Some (word (wll ! nat i))]"
    have s: "fill_loop wll c n result i = fill_loop wll c n ?r (i + 1)"
      using i True by (subst fill_loop.simps) simp
    have "length (fill_loop wll c n ?r (i + 1)) = nat n \<and>
      (\<forall>k < nat n. fill_loop wll c n ?r (i + 1) ! k =
        (if i + 1 \<le> int k \<and> int k < c then Some (word (wll ! k)) else ?r ! k))"
      using Suc.prems by (intro Suc.IH) simp_all
    then have l: "length (fill_loop wll c n ?r (i + 1)) = nat n"
      and e: "\<And>k. k < nat n \<Longrightarrow> fill_loop wll c n ?r (i + 1) ! k =
        (if i + 1 \<le> int k \<and> int k < c then Some (word (wll ! k)) else ?r ! k)"
      by blast+
    have "\<forall>k < nat n. fill_loop wll c n ?r (i + 1) ! k =
      (if i \<le> int k \<and> int k < c then Some (word (wll ! k)) else result ! k)"
    proof (intro allI impI)
      fix k assume k: "k < nat n"
      show "fill_loop wll c n ?r (i + 1) ! k =
        (if i \<le> int k \<and> int k < c then Some (word (wll ! k)) else result ! k)"
      proof (cases "int k = i")
        case True
        then have "k = nat i" by simp
        with e [OF k] True \<open>i < c\<close> k Suc.prems(3) show ?thesis by simp
      next
        case False
        then have "k \<noteq> nat i" using Suc.prems(2) by auto
        with e [OF k] False show ?thesis by auto
      qed
    qed
    with l show ?thesis unfolding s by simp
  next
    case False
    have s: "fill_loop wll c n result i = fill_loop wll c n result (i + 1)"
      using i False by (subst fill_loop.simps) simp
    have "length (fill_loop wll c n result (i + 1)) = nat n \<and>
      (\<forall>k < nat n. fill_loop wll c n result (i + 1) ! k =
        (if i + 1 \<le> int k \<and> int k < c then Some (word (wll ! k)) else result ! k))"
      using Suc.prems by (intro Suc.IH) simp_all
    then show ?thesis
      unfolding s using False by auto
  qed
qed

lemma fill_loop_eq:
  assumes "int (length wll) = c"
  shows "fill_loop wll c n (replicate (nat n) None) 0 =
         map Some (take (nat n) (map word wll)) @ replicate (nat n - length wll) None"
proof (rule nth_equalityI)
  show "length (fill_loop wll c n (replicate (nat n) None) 0) =
        length (map Some (take (nat n) (map word wll)) @ replicate (nat n - length wll) None)"
    using fill_loop_nth [OF refl, of 0 "replicate (nat n) None" n wll c] by auto
next
  fix k assume "k < length (fill_loop wll c n (replicate (nat n) None) 0)"
  then have k: "k < nat n"
    using fill_loop_nth [OF refl, of 0 "replicate (nat n) None" n wll c] by auto
  then show "fill_loop wll c n (replicate (nat n) None) 0 ! k =
        (map Some (take (nat n) (map word wll)) @ replicate (nat n - length wll) None) ! k"
    using fill_loop_nth [OF refl, of 0 "replicate (nat n) None" n wll c] assms
    by (auto simp: nth_append)
qed

lemma insertion_qsort_contract: "qsort_contract insertion_qsort"
proof -
  have "sorted_wrt (\<lambda>a b. compare_by_frequency a b \<le> 0) (insertion_qsort xs)" for xs
    using sorted_sort_key [of "\<lambda>node. - count node" xs]
    by (simp add: insertion_qsort_def sorted_map compare_by_frequency_def)
  then show ?thesis by (simp add: qsort_contract_def insertion_qsort_def)
qed

lemma qsort_contract_length: "qsort_contract qs \<Longrightarrow> length (qs xs) = length xs"
  by (metis qsort_contract_def mset_eq_length)

lemma find_frequent_words_eq:
  assumes "qsort_contract qs" "count_words s = Inr T"
  shows "find_frequent_words qs (Some s) n =
     (if length (concat T) \<le> HASH_TABLE_SIZE
      then Inr (map Some (take (nat n) (map word (qs (concat T)))) @
                replicate (nat n - length (concat T)) None)
      else Inl WordListOverflow)"
  using fill_loop_eq [of "qs (concat T)" "int (length (concat T))" n]
    qsort_contract_length [OF assms(1), of "concat T"]
  by (simp add: find_frequent_words_def collect_table_eq assms(2))

lemma find_frequent_words_error:
  assumes "find_frequent_words qs file n = Inl e"
  shows "(e = InputUnavailable \<and> file = None) \<or>
         ((e = CountOverflow \<or> e = WordListOverflow) \<and> file \<noteq> None)"
proof (cases "file")
  case None
  with assms show ?thesis by (simp add: find_frequent_words_def)
next
  case (Some s)
  show ?thesis
  proof (cases "count_words s")
    case (Inl e')
    with assms Some count_words_error [OF Inl] show ?thesis
      by (simp add: find_frequent_words_def)
  next
    case (Inr T)
    with assms Some show ?thesis
      by (simp add: find_frequent_words_def collect_table_eq split: if_splits)
  qed
qed

lemma find_frequent_words_unavailable: "find_frequent_words qs None n = Inl InputUnavailable"
  by (simp add: find_frequent_words_def)

lemma print_loop_error:
  "print_loop fw n i out = Inl e \<Longrightarrow> \<exists>k. e = UninitialisedRead k"
proof (induction fw n i out rule: print_loop.induct)
  case (1 fw n i out)
  show ?case
  proof (cases "i < n")
    case False
    with "1.prems" show ?thesis by (subst (asm) print_loop.simps) simp
  next
    case True
    show ?thesis
    proof (cases "fw ! nat i")
      case None
      with True "1.prems" show ?thesis by (subst (asm) print_loop.simps) auto
    next
      case (Some w)
      with True "1.prems" have "print_loop fw n (i + 1) (out @ [(i + 1, w)]) = Inl e"
        by (subst (asm) print_loop.simps) simp
      with "1.IH" [OF True Some] show ?thesis by simp
    qed
  qed
qed

lemma print_loop_uninitialised:
  "m = c - nat i \<Longrightarrow> 0 \<le> i \<Longrightarrow> nat i \<le> c \<Longrightarrow> int c < n \<Longrightarrow>
   \<forall>k < c. fw ! k \<noteq> None \<Longrightarrow> fw ! c = None \<Longrightarrow>
   print_loop fw n i out = Inl (UninitialisedRead (int c))"
proof (induction m arbitrary: i out)
  case 0
  then have i: "nat i = c" "i = int c" by auto
  with 0 show ?case by (subst print_loop.simps) simp
next
  case (Suc m)
  then have i: "nat i < c" "i < n" by auto
  with Suc.prems obtain w where w: "fw ! nat i = Some w" by auto
  have "print_loop fw n (i + 1) (out @ [(i + 1, w)]) = Inl (UninitialisedRead (int c))"
    using Suc.prems i by (intro Suc.IH) auto
  with i w show ?case by (subst print_loop.simps) simp
qed

text \<open>
  C7, as the spec states it: the word counter fails with \<open>InputUnavailable\<close> exactly
  when the input cannot be opened. \<open>main\<close> checks \<open>n\<close> before \<open>find_frequent_words\<close>
  opens the file, so with \<open>n = 0\<close> and a file that cannot be opened it fails with the
  message about \<open>n\<close>.
\<close>

theorem error_kinds_counterexample:
  "main_model insertion_qsort None 0 \<noteq> Inl InputUnavailable"
  by (simp add: main_model_def)

text \<open>
  C7, amended: the word counter fails with \<open>InvalidArgument\<close> exactly when \<open>n \<le> 0\<close>
  (whether or not the input can be opened), and with \<open>InputUnavailable\<close> exactly when
  \<open>n > 0\<close> and the input cannot be opened; either way it produces no result.
\<close>

theorem main_model_error_kinds:
  "(main_model qs file n = Inl InvalidArgument \<longleftrightarrow> n \<le> 0) \<and>
   (main_model qs file n = Inl InputUnavailable \<longleftrightarrow> 0 < n \<and> file = None)"
proof (cases "n \<le> 0")
  case True
  then show ?thesis by (simp add: main_model_def)
next
  case False
  show ?thesis
  proof (cases "file")
    case None
    with False show ?thesis by (simp add: main_model_def find_frequent_words_unavailable)
  next
    case (Some s)
    show ?thesis
    proof (cases "find_frequent_words qs file n")
      case (Inl e)
      from find_frequent_words_error [OF Inl] Some
      have "e = CountOverflow \<or> e = WordListOverflow" by simp
      then have "e \<noteq> InvalidArgument" "e \<noteq> InputUnavailable" by auto
      with Inl Some False show ?thesis
        by (simp add: main_model_def)
    next
      case (Inr fw)
      have "main_model qs file n = print_loop fw n 0 []"
        using False Inr by (simp add: main_model_def)
      moreover have "print_loop fw n 0 [] \<noteq> Inl InvalidArgument"
        "print_loop fw n 0 [] \<noteq> Inl InputUnavailable"
        using print_loop_error [of fw n 0 "[]"] by auto
      ultimately show ?thesis using False Some by simp
    qed
  qed
qed

text \<open>
  When the text has fewer than \<open>n\<close> distinct words, the cells of the result from
  \<open>count\<close> on are never written, and the printing loop of \<open>main\<close> reads the first of
  them.
\<close>

lemma main_model_uninitialised:
  assumes "qsort_contract qs" "count_words s = Inr T" "length (concat T) \<le> HASH_TABLE_SIZE"
    "int (length (concat T)) < n"
  shows "find_frequent_words qs (Some s) n =
           Inr (map Some (map word (qs (concat T))) @
                replicate (nat n - length (concat T)) None) \<and>
         main_model qs (Some s) n = Inl (UninitialisedRead (int (length (concat T))))"
proof -
  let ?nodes = "concat T"
  let ?fw = "map Some (map word (qs ?nodes)) @ replicate (nat n - length ?nodes) None"
  have l: "length (qs ?nodes) = length ?nodes" by (rule qsort_contract_length [OF assms(1)])
  have f: "find_frequent_words qs (Some s) n = Inr ?fw"
    using assms(3,4) l by (simp add: find_frequent_words_eq [OF assms(1,2)])
  have n: "0 < n" using assms(4) by simp
  have "print_loop ?fw n 0 [] = Inl (UninitialisedRead (int (length ?nodes)))"
    using assms(4) l
    by (intro print_loop_uninitialised [OF refl]) (auto simp: nth_append)
  with f n show ?thesis by (simp add: main_model_def)
qed

text \<open>
  In particular, a text with no word at all leaves every cell of the result unwritten.
\<close>

lemma fill_loop_no_nodes:
  "fill_loop wll 0 n (replicate (nat n) None) 0 = replicate (nat n) None"
proof (rule nth_equalityI)
  show "length (fill_loop wll 0 n (replicate (nat n) None) 0) = length (replicate (nat n) None)"
    using fill_loop_nth [OF refl, of 0 "replicate (nat n) None" n wll 0] by simp
next
  fix k assume "k < length (fill_loop wll 0 n (replicate (nat n) None) 0)"
  then have "k < nat n"
    using fill_loop_nth [OF refl, of 0 "replicate (nat n) None" n wll 0] by simp
  then show "fill_loop wll 0 n (replicate (nat n) None) 0 ! k = replicate (nat n) None ! k"
    using fill_loop_nth [OF refl, of 0 "replicate (nat n) None" n wll 0] by simp
qed

lemma no_words_uninitialised:
  assumes "word_calls s = []" "0 < n"
  shows "find_frequent_words qs (Some s) n = Inr (replicate (nat n) None)"
    and "main_model qs (Some s) n = Inl (UninitialisedRead 0)"
proof -
  have c: "count_words s = Inr empty_table"
    using assms(1) by (simp add: count_words_calls)
  have e: "concat empty_table = []"
    by (simp add: empty_table_def)
  show f: "find_frequent_words qs (Some s) n = Inr (replicate (nat n) None)"
    by (simp add: find_frequent_words_def collect_table_eq c e fill_loop_no_nodes)
  have "print_loop (replicate (nat n) None) n 0 [] = Inl (UninitialisedRead 0)"
    using assms(2) by (subst print_loop.simps) simp
  with f assms(2) show "main_model qs (Some s) n = Inl (UninitialisedRead 0)"
    by (simp add: main_model_def)
qed

lemma no_words_example: "word_calls ''123 ... !!'' = []"
  by (simp add: word_calls_def isalpha_def)

text \<open>
  What the function returns when the counting ends and \<open>word_linked_list\<close> is large
  enough: the words of the sorted nodes, in the first \<open>min n count\<close> cells, where the
  sorted nodes are the nodes of the table in an order of descending count.
\<close>

lemma find_frequent_words_top_n:
  assumes "qsort_contract qs" "count_words s = Inr T"
    "length (concat T) \<le> HASH_TABLE_SIZE" "0 < n"
  shows "\<exists>sorted_nodes.
           mset sorted_nodes = mset (concat T) \<and>
           sorted_wrt (\<lambda>a b. count b \<le> count a) sorted_nodes \<and>
           find_frequent_words qs (Some s) n =
             Inr (map Some (take (nat n) (map word sorted_nodes)) @
                  replicate (nat n - length (concat T)) None)"
proof -
  let ?sorted = "qs (concat T)"
  have "mset ?sorted = mset (concat T)"
    using assms(1) by (simp add: qsort_contract_def)
  moreover have "sorted_wrt (\<lambda>a b. compare_by_frequency a b \<le> 0) ?sorted"
    using assms(1) by (simp add: qsort_contract_def)
  then have "sorted_wrt (\<lambda>a b. count b \<le> count a) ?sorted"
    by (simp add: compare_by_frequency_def)
  ultimately show ?thesis
    using find_frequent_words_eq [OF assms(1,2), of n] assms(3) by auto
qed

subsection \<open>More distinct words than \<open>word_linked_list\<close> has cells\<close>

lemma lower_letter:
  assumes "(d::nat) < 26"
  shows "isalpha (char_of (97 + d))" "tolower (char_of (97 + d)) = char_of (97 + d)"
  using assms by (simp_all add: isalpha_def tolower_def)

lemma three_letters_alpha:
  assumes "k < 17576"
  shows "\<forall>x \<in> set (three_letters k). isalpha x" "map tolower (three_letters k) = three_letters k"
proof -
  have "k div 676 < 26" using assms by simp
  then show "\<forall>x \<in> set (three_letters k). isalpha x" "map tolower (three_letters k) = three_letters k"
    by (simp_all add: three_letters_def lower_letter)
qed

lemma char_of_inj: "a < 256 \<Longrightarrow> b < 256 \<Longrightarrow> (char_of a :: char) = char_of b \<Longrightarrow> a = (b::nat)"
  by (metis of_char_of mod_less)

lemma three_letters_inj:
  assumes "j < 17576" "k < 17576" "three_letters j = three_letters k"
  shows "j = k"
proof -
  have b: "j div 676 < 26" "k div 676 < 26" using assms(1,2) by simp_all
  have "(char_of (97 + j div 676) :: char) = char_of (97 + k div 676)"
    "(char_of (97 + j div 26 mod 26) :: char) = char_of (97 + k div 26 mod 26)"
    "(char_of (97 + j mod 26) :: char) = char_of (97 + k mod 26)"
    using assms(3) by (simp_all add: three_letters_def)
  then have "97 + j div 676 = 97 + k div 676" "97 + j div 26 mod 26 = 97 + k div 26 mod 26"
    "97 + j mod 26 = 97 + k mod 26"
    using b by (auto intro!: char_of_inj)
  then have e: "j div 676 = k div 676" "j div 26 mod 26 = k div 26 mod 26" "j mod 26 = k mod 26"
    by simp_all
  have "j div 26 div 26 = j div 676" "k div 26 div 26 = k div 676"
    by (simp_all add: div_mult2_eq [symmetric])
  with e(1) have "j div 26 div 26 = k div 26 div 26" by simp
  with e(2) have "j div 26 = k div 26" by (metis div_mult_mod_eq)
  with e(3) show ?thesis by (metis div_mult_mod_eq)
qed

lemma word_calls_words:
  assumes "\<forall>w \<in> set ws. w \<noteq> [] \<and> (\<forall>x \<in> set w. isalpha x)"
  shows "word_calls (concat (map (\<lambda>w. w @ '' '') ws)) =
         map (\<lambda>w. take (WORD_BUFFER_SIZE - 1) (map tolower w)) ws"
  using assms
proof (induction ws)
  case Nil
  show ?case by (simp add: word_calls_def)
next
  case (Cons w ws)
  let ?rest = "concat (map (\<lambda>w. w @ '' '') ws)"
  have sp: "\<not> isalpha (CHR '' '')" by (rule isalpha_a)
  have w: "w \<noteq> []" "isalpha (hd w)" "\<forall>x \<in> set w. isalpha x \<or> x = CHR 0x27"
    using Cons.prems by auto
  have "word_calls ([] @ w @ (CHR '' '' # ?rest)) =
      word_calls [] @ take (WORD_BUFFER_SIZE - 1) (map tolower w) # word_calls (CHR '' '' # ?rest)"
    using sp by (intro word_calls_run [OF w(2) w(1) w(3)]) simp_all
  moreover have "word_calls (CHR '' '' # ?rest) = word_calls ?rest"
    using sp by (simp add: word_calls_def)
  moreover have "word_calls [] = []" by (simp add: word_calls_def)
  ultimately show ?case using Cons by simp
qed

lemma many_words_calls: "word_calls many_words = map three_letters [0..<10001]"
proof -
  have "\<forall>w \<in> set (map three_letters [0..<10001]). w \<noteq> [] \<and> (\<forall>x \<in> set w. isalpha x)"
    using three_letters_alpha(1) by (auto simp: three_letters_def)
  from word_calls_words [OF this]
  have "word_calls many_words =
    map (\<lambda>k. take (WORD_BUFFER_SIZE - 1) (map tolower (three_letters k))) [0..<10001]"
    by (simp add: many_words_def comp_def)
  also have "\<dots> = map three_letters [0..<10001]"
    by (rule map_cong) (simp_all add: three_letters_alpha(2), simp add: three_letters_def WORD_BUFFER_SIZE_def)
  finally show ?thesis .
qed

lemma many_words_distinct:
  "\<exists>T. count_words many_words = Inr T \<and> length (concat T) = 10001"
proof -
  have "int (count_list (word_calls many_words) v) \<le> INT_MAX" for v
  proof -
    have "count_list (word_calls many_words) v \<le> length (word_calls many_words)"
      by (rule count_le_length)
    then show ?thesis by (simp add: many_words_calls INT_MAX_def)
  qed
  then have "\<forall>v. int (count_list (word_calls many_words) v) \<le> INT_MAX" by blast
  from count_words_nodes [OF this] obtain T where T: "count_words many_words = Inr T"
    by blast
  have "inj_on three_letters (set [0..<10001])"
    by (rule inj_onI) (auto intro: three_letters_inj)
  then have "distinct (map three_letters [0..<10001])"
    by (simp add: distinct_map)
  then have "card (set (map three_letters [0..<10001])) = length (map three_letters [0..<10001])"
    by (rule distinct_card)
  then have "length (concat T) = 10001"
    by (simp add: count_words_length [OF T] many_words_calls)
  with T show ?thesis by blast
qed

text \<open>
  C8. For every input and every positive \<open>n\<close> the result is the distinct words by
  descending count, cut to \<open>n\<close>, and fewer than \<open>n\<close> distinct words are no error. Two
  inputs where the program does otherwise, whatever the sort does: on \<open>many_words\<close>, for
  every \<open>n\<close>, \<open>find_frequent_words\<close> writes \<open>word_linked_list[10000]\<close>, past the end
  of the array, before it sorts anything; on a text without words and \<open>n = 1\<close>, the one
  cell of the result is never written, and \<open>main\<close> reads it.
\<close>

theorem find_frequent_words_failures:
  "find_frequent_words qs (Some many_words) n = Inl WordListOverflow \<and>
   find_frequent_words qs (Some ''123 ... !!'') 1 = Inr [None] \<and>
   main_model qs (Some ''123 ... !!'') 1 = Inl (UninitialisedRead 0)"
proof (intro conjI)
  from many_words_distinct obtain T where T: "count_words many_words = Inr T"
    and l: "length (concat T) = 10001"
    by blast
  from l have "\<not> length (concat T) \<le> HASH_TABLE_SIZE"
    by (simp add: HASH_TABLE_SIZE_def)
  then have "collect_table T [] = Inl WordListOverflow"
    by (simp add: collect_table_eq)
  then show "find_frequent_words qs (Some many_words) n = Inl WordListOverflow"
    by (simp add: find_frequent_words_def T)
next
  show "find_frequent_words qs (Some ''123 ... !!'') 1 = Inr [None]"
    using no_words_uninitialised(1) [OF no_words_example, of 1 qs] by simp
next
  show "main_model qs (Some ''123 ... !!'') 1 = Inl (UninitialisedRead 0)"
    using no_words_uninitialised(2) [OF no_words_example, of 1 qs] by simp
qed

subsection \<open>A word that occurs more than \<open>INT_MAX\<close> times\<close>

text \<open>
  The text of \<open>n\<close> times the word \<open>a\<close>, each followed by a space: with
  \<open>n > INT_MAX\<close> the counting increments a count of \<open>INT_MAX\<close>.
\<close>

lemma count_words_overflow_example:
  assumes "INT_MAX < int n"
  shows "count_words (concat (replicate n ''a '')) = Inl CountOverflow"
proof -
  have "word_calls (concat (map (\<lambda>w. w @ '' '') (replicate n ''a''))) =
      map (\<lambda>w. take (WORD_BUFFER_SIZE - 1) (map tolower w)) (replicate n ''a'')"
    by (rule word_calls_words) (simp add: isalpha_a)
  then have w: "word_calls (concat (replicate n ''a '')) = replicate n ''a''"
    by (simp add: tolower_a WORD_BUFFER_SIZE_def)
  have "INT_MAX < int (count_list (word_calls (concat (replicate n ''a ''))) ''a'')"
    using assms by (simp only: w count_list_replicate_same)
  then show ?thesis by (rule count_words_overflow)
qed

end
